theory Spec2Isabelle
  imports Complex_Main "HOL-Library.Multiset"
begin

section \<open>The spelling fixer: a character-level hidden Markov model\<close>

text \<open>
  A shallow embedding of \<^verbatim>\<open>spelling_fixer.py\<close>. Python floats are modelled as
  exact reals (rounding is not modelled), Python strings as lists of 8-bit characters
  (ASCII text), \<^verbatim>\<open>Counter\<close> objects as multisets, dictionaries as maps, and every
  exception the code can raise as a value of \<open>py_error\<close>.
\<close>

subsection \<open>Exceptions as values\<close>

datatype py_error = KeyError | TypeError | ValueError | IndexError

definition bind_res :: "py_error + 'a \<Rightarrow> ('a \<Rightarrow> py_error + 'b) \<Rightarrow> py_error + 'b" where
  "bind_res m f = (case m of Inl e \<Rightarrow> Inl e | Inr v \<Rightarrow> f v)"

text \<open>\<^verbatim>\<open>d[k]\<close> on a dictionary raises KeyError when the key is missing.\<close>

definition lookup :: "('k \<rightharpoonup> 'v) \<Rightarrow> 'k \<Rightarrow> py_error + 'v" where
  "lookup d k = (case d k of None \<Rightarrow> Inl KeyError | Some v \<Rightarrow> Inr v)"

text \<open>\<^verbatim>\<open>d[a][b]\<close> on a dictionary of dictionaries.\<close>

definition lookup2 :: "('k \<rightharpoonup> ('j \<rightharpoonup> 'v)) \<Rightarrow> 'k \<Rightarrow> 'j \<Rightarrow> py_error + 'v" where
  "lookup2 d a b = bind_res (lookup d a) (\<lambda>row. lookup row b)"

subsection \<open>Safe logarithm\<close>

text \<open>\<^verbatim>\<open>LOG_ZERO = -1e9\<close>\<close>

definition LOG_ZERO :: real where
  "LOG_ZERO = - 1000000000"

text \<open>\<^verbatim>\<open>math.log(x)\<close> raises ValueError (math domain error) unless \<open>x > 0\<close>.\<close>

definition math_log :: "real \<Rightarrow> py_error + real" where
  "math_log x = (if x \<le> 0 then Inl ValueError else Inr (ln x))"

definition safe_log :: "real \<Rightarrow> py_error + real" where
  "safe_log x = (if x \<le> 0 then Inr LOG_ZERO else math_log x)"

subsection \<open>Strings\<close>

text \<open>\<^verbatim>\<open>alphabet = list("abcdefghijklmnopqrstuvwxyz'")\<close>\<close>

definition alphabet :: "char list" where
  "alphabet = ''abcdefghijklmnopqrstuvwxyz'' @ [CHR 0x27]"

text \<open>\<^verbatim>\<open>str.lower()\<close> on ASCII text: only \<open>A\<close> to \<open>Z\<close> change.\<close>

definition upper_letters :: "char list" where
  "upper_letters = ''ABCDEFGHIJKLMNOPQRSTUVWXYZ''"

definition lower_letters :: "char list" where
  "lower_letters = ''abcdefghijklmnopqrstuvwxyz''"

definition lower_char :: "char \<Rightarrow> char" where
  "lower_char c = (case map_of (zip upper_letters lower_letters) c of Some l \<Rightarrow> l | None \<Rightarrow> c)"

definition lower :: "string \<Rightarrow> string" where
  "lower s = map lower_char s"

text \<open>
  The ASCII characters that \<^verbatim>\<open>str.strip()\<close> and \<^verbatim>\<open>str.split()\<close> treat as
  whitespace: tab, newline, vertical tab, form feed, carriage return, the four
  separators 0x1c to 0x1f, and the space.
\<close>

definition is_space :: "char \<Rightarrow> bool" where
  "is_space c = (let n = (of_char c :: nat) in (9 \<le> n \<and> n \<le> 13) \<or> (28 \<le> n \<and> n \<le> 32))"

definition strip :: "string \<Rightarrow> string" where
  "strip s = rev (dropWhile is_space (rev (dropWhile is_space s)))"

text \<open>
  \<^verbatim>\<open>str.split()\<close> with no argument: a left to right scan that closes the current
  word at each whitespace character and never yields an empty word.
\<close>

fun split_scan :: "string \<Rightarrow> string \<Rightarrow> string list" where
  "split_scan cur [] = (if cur = [] then [] else [cur])"
| "split_scan cur (c # cs) =
     (if is_space c then (if cur = [] then split_scan [] cs else cur # split_scan [] cs)
      else split_scan (cur @ [c]) cs)"

definition split_ws :: "string \<Rightarrow> string list" where
  "split_ws s = split_scan [] s"

text \<open>\<^verbatim>\<open>' '.join(words)\<close>\<close>

fun join_space :: "string list \<Rightarrow> string" where
  "join_space [] = []"
| "join_space [w] = w"
| "join_space (w # ws) = w @ CHR '' '' # join_space ws"

subsection \<open>Training: counting\<close>

text \<open>
  The three counters of \<^verbatim>\<open>build_hmm_from_aspell\<close>. A \<^verbatim>\<open>Counter\<close> that is only
  ever incremented by one is a multiset: \<^verbatim>\<open>c[k]\<close> is \<open>count c k\<close> (0 for a missing
  key) and \<^verbatim>\<open>sum(c.values())\<close> is \<open>size c\<close>. A \<^verbatim>\<open>defaultdict(Counter)\<close>
  is a function into multisets, the empty multiset being the default.
\<close>

record counts =
  emission_counts :: "char \<Rightarrow> char multiset"
  transition_counts :: "char \<Rightarrow> char multiset"
  start_counts :: "char multiset"

definition empty_counts :: counts where
  "empty_counts =
     \<lparr>emission_counts = (\<lambda>_. {#}), transition_counts = (\<lambda>_. {#}), start_counts = {#}\<rparr>"

text \<open>\<^verbatim>\<open>[c for c in word if c in alphabet]\<close>\<close>

definition letters_of :: "string \<Rightarrow> char list" where
  "letters_of word = filter (\<lambda>c. c \<in> set alphabet) word"

text \<open>\<^verbatim>\<open>d[a][b] += 1\<close> on a \<^verbatim>\<open>defaultdict(Counter)\<close>\<close>

definition bump :: "(char \<Rightarrow> char multiset) \<Rightarrow> char \<times> char \<Rightarrow> (char \<Rightarrow> char multiset)" where
  "bump d p = d(fst p := add_mset (snd p) (d (fst p)))"

text \<open>
  The loop over \<^verbatim>\<open>i in range(len(correct_letters))\<close> for one typo. It runs only
  when both lists have the same length, so the positions \<open>i\<close> are the pairs of \<open>zip\<close>.
\<close>

definition count_typo :: "char list \<Rightarrow> (char \<Rightarrow> char multiset) \<Rightarrow> string \<Rightarrow> (char \<Rightarrow> char multiset)" where
  "count_typo correct_letters ec typo =
     (let typo_letters = letters_of typo in
      if length correct_letters = length typo_letters
      then fold (\<lambda>p d. bump d p) (zip correct_letters typo_letters) ec
      else ec)"

text \<open>
  The body of the loop over the lines once \<^verbatim>\<open>correct_word\<close> and \<^verbatim>\<open>typos\<close> are
  split off: emissions from the typos of the same length, then the start count, then
  the transitions \<^verbatim>\<open>(correct_letters[i], correct_letters[i + 1])\<close>.
\<close>

definition count_entry :: "string \<Rightarrow> string list \<Rightarrow> counts \<Rightarrow> counts" where
  "count_entry correct_word typos cs =
     (let correct_letters = letters_of correct_word in
      if length correct_letters = 0 then cs
      else
        \<lparr>emission_counts = fold (\<lambda>typo ec. count_typo correct_letters ec typo) typos (emission_counts cs),
         transition_counts =
           fold (\<lambda>p d. bump d p) (zip correct_letters (tl correct_letters)) (transition_counts cs),
         start_counts = add_mset (hd correct_letters) (start_counts cs)\<rparr>)"

text \<open>
  One line of the file: strip and lowercase it, skip it when it is empty or has no
  colon, split it at the first colon, strip the word, split the typos at whitespace.
\<close>

definition count_line :: "string \<Rightarrow> counts \<Rightarrow> counts" where
  "count_line raw cs =
     (let line = lower (strip raw) in
      if line = [] \<or> CHR '':'' \<notin> set line then cs
      else
        (let correct_word = strip (takeWhile (\<lambda>c. c \<noteq> CHR '':'') line);
             typos = split_ws (strip (tl (dropWhile (\<lambda>c. c \<noteq> CHR '':'') line)))
         in count_entry correct_word typos cs))"

definition count_lines :: "string list \<Rightarrow> counts" where
  "count_lines ls = fold count_line ls empty_counts"

subsection \<open>Training: smoothing\<close>

record hmm =
  hmm_alphabet :: "char list"
  hmm_E :: "char \<rightharpoonup> (char \<rightharpoonup> real)"
  hmm_T :: "char \<rightharpoonup> (char \<rightharpoonup> real)"
  hmm_start :: "char \<rightharpoonup> real"
  hmm_emission_counts :: "char \<Rightarrow> char multiset"

text \<open>\<^verbatim>\<open>V = len(alphabet)\<close> and \<^verbatim>\<open>smoothing = 0.01\<close>\<close>

definition V :: nat where
  "V = length alphabet"

definition smoothing :: real where
  "smoothing = 1 / 100"

text \<open>
  \<^verbatim>\<open>E[correct][typed] = (count + smoothing) / total\<close>, where \<^verbatim>\<open>total\<close> is
  computed from the raw counts and \<^verbatim>\<open>count\<close> gets 5 more on the diagonal.
\<close>

definition emission_prob :: "(char \<Rightarrow> char multiset) \<Rightarrow> char \<Rightarrow> char \<Rightarrow> real" where
  "emission_prob ec correct typed =
     (let total = real (size (ec correct)) + real V * smoothing;
          cnt = count (ec correct) typed;
          cnt' = (if correct = typed then cnt + 5 else cnt)
      in (real cnt' + smoothing) / total)"

definition transition_prob :: "(char \<Rightarrow> char multiset) \<Rightarrow> char \<Rightarrow> char \<Rightarrow> real" where
  "transition_prob tc cur next_char =
     (let total = real (size (tc cur)) + real V * smoothing;
          cnt = count (tc cur) next_char
      in (real cnt + smoothing) / total)"

definition start_probability :: "char multiset \<Rightarrow> char \<Rightarrow> real" where
  "start_probability sc letter =
     (let total_start = real (size sc) + real V * smoothing;
          cnt = count sc letter
      in (real cnt + smoothing) / total_start)"

text \<open>A dictionary with the keys of a list, as the loops \<^verbatim>\<open>for k in alphabet: d[k] = f(k)\<close> build it.\<close>

definition dict_of :: "char list \<Rightarrow> (char \<Rightarrow> 'v) \<Rightarrow> (char \<rightharpoonup> 'v)" where
  "dict_of keys f = (\<lambda>k. if k \<in> set keys then Some (f k) else None)"

definition hmm_of_counts :: "counts \<Rightarrow> hmm" where
  "hmm_of_counts cs =
     \<lparr>hmm_alphabet = alphabet,
      hmm_E = dict_of alphabet (\<lambda>correct. dict_of alphabet (emission_prob (emission_counts cs) correct)),
      hmm_T = dict_of alphabet (\<lambda>cur. dict_of alphabet (transition_prob (transition_counts cs) cur)),
      hmm_start = dict_of alphabet (start_probability (start_counts cs)),
      hmm_emission_counts = emission_counts cs\<rparr>"

text \<open>
  \<^verbatim>\<open>build_hmm_from_aspell\<close>: the file is its list of lines, or \<open>None\<close> when it does
  not exist, in which case the function returns \<^verbatim>\<open>None\<close>.
\<close>

definition build_hmm_from_lines :: "string list \<Rightarrow> hmm" where
  "build_hmm_from_lines ls = hmm_of_counts (count_lines ls)"

definition build_hmm_from_aspell :: "string list option \<Rightarrow> hmm option" where
  "build_hmm_from_aspell file = map_option build_hmm_from_lines file"

subsection \<open>Decoding: Viterbi\<close>

text \<open>
  A row \<^verbatim>\<open>M[time]\<close> maps a state to its score, a row \<^verbatim>\<open>Backpointers[time]\<close>
  maps a state to the previous state or to \<^verbatim>\<open>None\<close>. Rows are filled in the order
  of the alphabet, which is also the order in which Python iterates over their keys.
\<close>

type_synonym score_row = "char \<rightharpoonup> real"
type_synonym back_row = "char \<rightharpoonup> char option"

text \<open>Initialisation, time step 0: the loop over \<^verbatim>\<open>state in alphabet\<close>.\<close>

fun init_states :: "hmm \<Rightarrow> char \<Rightarrow> char list \<Rightarrow> score_row \<times> back_row \<Rightarrow> py_error + score_row \<times> back_row" where
  "init_states h o0 [] MB = Inr MB"
| "init_states h o0 (state # rest) MB =
     bind_res (lookup (hmm_start h) state) (\<lambda>ps.
     bind_res (safe_log ps) (\<lambda>ls.
     bind_res (lookup2 (hmm_E h) state o0) (\<lambda>pe.
     bind_res (safe_log pe) (\<lambda>le.
       init_states h o0 rest ((fst MB)(state \<mapsto> ls + le), (snd MB)(state \<mapsto> None))))))"

text \<open>
  The value \<^verbatim>\<open>val\<close> of the innermost loop body:
  \<^verbatim>\<open>M[time-1][prev_state] + safe_log(T[prev_state][state]) + safe_log(E[state][O[time]])\<close>.
\<close>

definition candidate :: "hmm \<Rightarrow> score_row \<Rightarrow> char \<Rightarrow> char \<Rightarrow> char \<Rightarrow> py_error + real" where
  "candidate h Mprev state ot prev_state =
     bind_res (lookup Mprev prev_state) (\<lambda>mp.
     bind_res (lookup2 (hmm_T h) prev_state state) (\<lambda>pt.
     bind_res (safe_log pt) (\<lambda>lt.
     bind_res (lookup2 (hmm_E h) state ot) (\<lambda>pe.
     bind_res (safe_log pe) (\<lambda>le.
       Inr (mp + lt + le))))))"

text \<open>
  The innermost loop over \<^verbatim>\<open>prev_state in alphabet\<close>, carrying
  \<^verbatim>\<open>(max_val, best_prev)\<close>, which start as \<^verbatim>\<open>(LOG_ZERO, None)\<close>.
\<close>

fun best_prev_loop :: "hmm \<Rightarrow> score_row \<Rightarrow> char \<Rightarrow> char \<Rightarrow> char list \<Rightarrow> real \<times> char option \<Rightarrow> py_error + real \<times> char option" where
  "best_prev_loop h Mprev state ot [] acc = Inr acc"
| "best_prev_loop h Mprev state ot (prev_state # rest) acc =
     bind_res (candidate h Mprev state ot prev_state) (\<lambda>val.
       if val > fst acc then best_prev_loop h Mprev state ot rest (val, Some prev_state)
       else best_prev_loop h Mprev state ot rest acc)"

text \<open>The loop over \<^verbatim>\<open>state in alphabet\<close> of one time step.\<close>

fun step_states :: "hmm \<Rightarrow> score_row \<Rightarrow> char \<Rightarrow> char list \<Rightarrow> score_row \<times> back_row \<Rightarrow> py_error + score_row \<times> back_row" where
  "step_states h Mprev ot [] MB = Inr MB"
| "step_states h Mprev ot (state # rest) MB =
     bind_res (best_prev_loop h Mprev state ot (hmm_alphabet h) (LOG_ZERO, None)) (\<lambda>r.
       step_states h Mprev ot rest ((fst MB)(state \<mapsto> fst r), (snd MB)(state \<mapsto> snd r)))"

text \<open>
  The loop over \<^verbatim>\<open>time in range(1, t)\<close>: the rows computed so far, in order, and
  the observations still to come.
\<close>

fun recursion :: "hmm \<Rightarrow> char list \<Rightarrow> score_row list \<times> back_row list \<Rightarrow> py_error + score_row list \<times> back_row list" where
  "recursion h [] tables = Inr tables"
| "recursion h (ot # rest) tables =
     bind_res (step_states h (last (fst tables)) ot (hmm_alphabet h) (Map.empty, Map.empty)) (\<lambda>MB.
       recursion h rest (fst tables @ [fst MB], snd tables @ [snd MB]))"

text \<open>Both tables for a non-empty observation sequence \<^verbatim>\<open>O\<close>.\<close>

fun forward :: "hmm \<Rightarrow> char list \<Rightarrow> py_error + score_row list \<times> back_row list" where
  "forward h [] = Inl IndexError"
| "forward h (o0 # rest) =
     bind_res (init_states h o0 (hmm_alphabet h) (Map.empty, Map.empty)) (\<lambda>MB.
       recursion h rest ([fst MB], [snd MB]))"

text \<open>
  \<^verbatim>\<open>max(d, key=d.get)\<close>: the keys in order, keeping the first one whose value is
  not exceeded; ValueError on an empty dictionary. The keys of a row are given by the
  alphabet list; a symbol listed twice would be met again with the same value, which
  the strict comparison ignores.
\<close>

fun max_loop :: "score_row \<Rightarrow> char list \<Rightarrow> char \<times> real \<Rightarrow> py_error + char" where
  "max_loop d [] best = Inr (fst best)"
| "max_loop d (k # ks) best =
     bind_res (lookup d k) (\<lambda>v. if v > snd best then max_loop d ks (k, v) else max_loop d ks best)"

fun max_key :: "score_row \<Rightarrow> char list \<Rightarrow> py_error + char" where
  "max_key d [] = Inl ValueError"
| "max_key d (k # ks) = bind_res (lookup d k) (\<lambda>v. max_loop d ks (k, v))"

text \<open>
  Backtracking from \<^verbatim>\<open>time\<close> down to 0: append \<^verbatim>\<open>best\<close>, and above time 0
  replace it by \<^verbatim>\<open>Backpointers[time][best]\<close>, a KeyError when \<^verbatim>\<open>best\<close> is
  \<^verbatim>\<open>None\<close>.
\<close>

fun backtrack :: "back_row list \<Rightarrow> nat \<Rightarrow> char option \<Rightarrow> char option list \<Rightarrow> py_error + char option list" where
  "backtrack Bs 0 best path = Inr (path @ [best])"
| "backtrack Bs (Suc time) best path =
     (if Suc time < length Bs then
        (case best of
           None \<Rightarrow> Inl KeyError
         | Some b \<Rightarrow> bind_res (lookup (Bs ! Suc time) b) (\<lambda>prev. backtrack Bs time prev (path @ [best])))
      else Inl IndexError)"

text \<open>\<^verbatim>\<open>''.join(path)\<close>: a TypeError when an item is \<^verbatim>\<open>None\<close>.\<close>

fun join_path :: "char option list \<Rightarrow> py_error + string" where
  "join_path [] = Inr []"
| "join_path (None # rest) = Inl TypeError"
| "join_path (Some c # rest) = bind_res (join_path rest) (\<lambda>s. Inr (c # s))"

text \<open>\<^verbatim>\<open>O = [c for c in observations.lower() if c in alphabet]\<close>\<close>

definition observed :: "string \<Rightarrow> hmm \<Rightarrow> char list" where
  "observed observations h = filter (\<lambda>c. c \<in> set (hmm_alphabet h)) (lower observations)"

text \<open>The part of \<^verbatim>\<open>viterbi\<close> after the test for an empty \<^verbatim>\<open>O\<close>.\<close>

definition viterbi_path :: "hmm \<Rightarrow> char list \<Rightarrow> py_error + string" where
  "viterbi_path h obs =
     bind_res (forward h obs) (\<lambda>tables.
     bind_res (max_key (last (fst tables)) (hmm_alphabet h)) (\<lambda>best.
     bind_res (backtrack (snd tables) (length obs - 1) (Some best) []) (\<lambda>path.
       join_path (rev path))))"

definition viterbi :: "string \<Rightarrow> hmm \<Rightarrow> py_error + string" where
  "viterbi observations h =
     (let obs = observed observations h in
      if length obs = 0 then Inr observations else viterbi_path h obs)"

subsection \<open>Correcting a sentence\<close>

text \<open>The loop over \<^verbatim>\<open>word in words\<close>, appending to \<^verbatim>\<open>corrected\<close>.\<close>

fun correct_words :: "string list \<Rightarrow> hmm \<Rightarrow> string list \<Rightarrow> py_error + string list" where
  "correct_words [] h corrected = Inr corrected"
| "correct_words (word # rest) h corrected =
     bind_res (viterbi word h) (\<lambda>corrected_word. correct_words rest h (corrected @ [corrected_word]))"

definition correct_sentence :: "string \<Rightarrow> hmm \<Rightarrow> py_error + string" where
  "correct_sentence text h =
     bind_res (correct_words (split_ws text) h []) (\<lambda>corrected. Inr (join_space corrected))"


subsection \<open>Auxiliary notions for the statements\<close>

text \<open>\<^verbatim>\<open>sum(row.values())\<close> for a row whose keys are alphabet symbols.\<close>

definition row_sum :: "(char \<rightharpoonup> real) \<Rightarrow> real" where
  "row_sum row = sum_list (List.map_filter row alphabet)"

text \<open>The number that \<^verbatim>\<open>safe_log\<close> returns.\<close>

definition log_value :: "real \<Rightarrow> real" where
  "log_value p = (if p \<le> 0 then LOG_ZERO else ln p)"

text \<open>Every symbol that was counted is an alphabet symbol.\<close>

definition letters_only :: "counts \<Rightarrow> bool" where
  "letters_only cs \<longleftrightarrow>
     (\<forall>c. set_mset (emission_counts cs c) \<subseteq> set alphabet) \<and>
     (\<forall>c. set_mset (transition_counts cs c) \<subseteq> set alphabet) \<and>
     set_mset (start_counts cs) \<subseteq> set alphabet"

text \<open>Every backpointer of a row that is a symbol is a symbol of the set \<open>A\<close>.\<close>

definition back_ok :: "char set \<Rightarrow> back_row \<Rightarrow> bool" where
  "back_ok A B \<longleftrightarrow> (\<forall>b p. B b = Some (Some p) \<longrightarrow> p \<in> A)"

text \<open>An item of the path is \<^verbatim>\<open>None\<close> or a symbol of \<open>A\<close>.\<close>

definition sym_ok :: "char set \<Rightarrow> char option \<Rightarrow> bool" where
  "sym_ok A x \<longleftrightarrow> (case x of None \<Rightarrow> True | Some c \<Rightarrow> c \<in> A)"

text \<open>The three tables have an entry for all alphabet symbols, and \<^verbatim>\<open>safe_log\<close> of each entry is at least \<open>-b\<close>.\<close>

definition tables_above :: "hmm \<Rightarrow> real \<Rightarrow> bool" where
  "tables_above h b \<longleftrightarrow>
     (\<forall>s\<in>set (hmm_alphabet h). \<exists>p. lookup (hmm_start h) s = Inr p \<and> - b \<le> log_value p) \<and>
     (\<forall>s\<in>set (hmm_alphabet h). \<forall>t\<in>set (hmm_alphabet h).
        \<exists>p. lookup2 (hmm_E h) s t = Inr p \<and> - b \<le> log_value p) \<and>
     (\<forall>s\<in>set (hmm_alphabet h). \<forall>t\<in>set (hmm_alphabet h).
        \<exists>p. lookup2 (hmm_T h) s t = Inr p \<and> - b \<le> log_value p)"

text \<open>A score row is defined on \<open>A\<close> with scores at least \<open>v\<close>.\<close>

definition row_above :: "char set \<Rightarrow> score_row \<Rightarrow> real \<Rightarrow> bool" where
  "row_above A M v \<longleftrightarrow> (\<forall>s\<in>A. \<exists>x. M s = Some x \<and> v \<le> x)"

text \<open>A backpointer row gives every symbol of \<open>A\<close> a previous symbol of \<open>A\<close>.\<close>

definition full_back :: "char set \<Rightarrow> back_row \<Rightarrow> bool" where
  "full_back A B \<longleftrightarrow> (\<forall>s\<in>A. \<exists>p\<in>A. B s = Some (Some p))"

text \<open>No counter holds more than \<open>N\<close> counts in total.\<close>

definition counts_le :: "counts \<Rightarrow> nat \<Rightarrow> bool" where
  "counts_le cs N \<longleftrightarrow>
     (\<forall>c. size (emission_counts cs c) \<le> N) \<and> (\<forall>c. size (transition_counts cs c) \<le> N) \<and>
     size (start_counts cs) \<le> N"

text \<open>The first item of a list, in list order, whose value no item of the list exceeds.\<close>

definition first_max :: "('a \<Rightarrow> real) \<Rightarrow> 'a list \<Rightarrow> 'a option" where
  "first_max c ps = find (\<lambda>p. \<forall>q\<in>set ps. c q \<le> c p) ps"

text \<open>One round of the innermost loop, for candidate values \<open>c\<close>: a strictly greater
  value replaces \<^verbatim>\<open>(max_val, best_prev)\<close>.\<close>

definition keep_max :: "('a \<Rightarrow> real) \<Rightarrow> 'a \<Rightarrow> real \<times> 'a option \<Rightarrow> real \<times> 'a option" where
  "keep_max c p acc = (if c p > fst acc then (c p, Some p) else acc)"

text \<open>The two training lines of the end-to-end scenario.\<close>

definition corpus :: "string list" where
  "corpus = [''the: teh hte'', ''receive: recieve'']"

text \<open>
  A hand-written model over the alphabet \<open>ab\<close> in which every row is a probability
  distribution: words start with \<open>a\<close>, every symbol is followed by \<open>a\<close>, and every
  symbol is typed as itself.
\<close>

definition det_hmm :: hmm where
  "det_hmm =
     \<lparr>hmm_alphabet = ''ab'',
      hmm_E = dict_of ''ab'' (\<lambda>s. dict_of ''ab'' (\<lambda>t. if s = t then 1 else 0)),
      hmm_T = dict_of ''ab'' (\<lambda>p. dict_of ''ab'' (\<lambda>s. if s = CHR ''a'' then 1 else 0)),
      hmm_start = dict_of ''ab'' (\<lambda>s. if s = CHR ''a'' then 1 else 0),
      hmm_emission_counts = (\<lambda>_. {#})\<rparr>"

section \<open>Properties\<close>



subsection \<open>Results, dictionaries and the alphabet\<close>

lemma bind_res_Inr [simp]: "bind_res (Inr v) f = f v"
  by (simp add: bind_res_def)

lemma bind_res_Inl [simp]: "bind_res (Inl e) f = Inl e"
  by (simp add: bind_res_def)

lemma safe_log_value: "safe_log p = Inr (log_value p)"
  by (simp add: safe_log_def math_log_def log_value_def)

lemma distinct_alphabet: "distinct alphabet"
  by (simp add: alphabet_def)

lemma V_eq: "V = 27"
  by (simp add: V_def alphabet_def)

lemma in_alphabet_a: "CHR ''a'' \<in> set alphabet"
  by (simp add: alphabet_def)

lemma in_alphabet_e: "CHR ''e'' \<in> set alphabet"
  by (simp add: alphabet_def)

lemma lookup_dict_of: "k \<in> set keys \<Longrightarrow> lookup (dict_of keys f) k = Inr (f k)"
  by (simp add: lookup_def dict_of_def)

lemma lookup2_dict_of:
  "a \<in> set keys \<Longrightarrow> b \<in> set keys' \<Longrightarrow>
   lookup2 (dict_of keys (\<lambda>k. dict_of keys' (f k))) a b = Inr (f a b)"
  by (simp add: lookup2_def lookup_def dict_of_def)

lemma map_filter_dict_of:
  "set xs \<subseteq> set keys \<Longrightarrow> List.map_filter (dict_of keys f) xs = map f xs"
  by (induction xs) (simp_all add: List.map_filter_simps dict_of_def)

lemma row_sum_dict_of: "row_sum (dict_of alphabet f) = (\<Sum>t\<leftarrow>alphabet. f t)"
  by (simp add: row_sum_def map_filter_dict_of)

subsection \<open>Safe logarithm\<close>

text \<open>
  C9. For every real \<open>p\<close>, \<^verbatim>\<open>safe_log(p)\<close> returns the sentinel \<open>-1e9\<close> when
  \<open>p \<le> 0\<close> and the natural logarithm of \<open>p\<close> when \<open>p > 0\<close>; it never raises:
  the domain error of \<^verbatim>\<open>math.log\<close> is not reachable.
\<close>

theorem safe_log_never_raises:
  "safe_log p = Inr (if p \<le> 0 then - 1000000000 else ln p)"
  by (simp add: safe_log_def math_log_def LOG_ZERO_def)

subsection \<open>Counting\<close>

lemmas counting_defs = count_lines_def count_line_def count_entry_def count_typo_def
  letters_of_def bump_def strip_def lower_def lower_char_def upper_letters_def lower_letters_def
  is_space_def split_ws_def
  empty_counts_def Let_def

lemma corpus_emission_a: "emission_counts (count_lines corpus) CHR ''a'' = {#}"
  by (simp add: corpus_def counting_defs alphabet_def)

lemma corpus_emission_e:
  "emission_counts (count_lines corpus) CHR ''e'' =
     {#CHR ''h'', CHR ''e'', CHR ''e'', CHR ''i'', CHR ''e''#}"
  by (simp add: corpus_def counting_defs alphabet_def)

lemma corpus_transition_e:
  "transition_counts (count_lines corpus) CHR ''e'' = {#CHR ''c'', CHR ''i''#}"
  by (simp add: corpus_def counting_defs alphabet_def)

lemma corpus_start: "start_counts (count_lines corpus) = {#CHR ''t'', CHR ''r''#}"
  by (simp add: corpus_def counting_defs alphabet_def)

lemma set_letters_of: "set (letters_of w) \<subseteq> set alphabet"
  by (auto simp: letters_of_def)

lemma fold_bump_mset:
  "fold (\<lambda>p d. bump d p) ps d c = d c + mset (map snd (filter (\<lambda>p. fst p = c) ps))"
  by (induction ps arbitrary: d) (simp_all add: bump_def)

lemma count_typo_skip:
  "length (letters_of typo) \<noteq> length cl \<Longrightarrow> count_typo cl ec typo = ec"
  by (auto simp: count_typo_def Let_def)

lemma fold_count_typo_filter:
  "fold (\<lambda>typo ec. count_typo cl ec typo) typos ec =
   fold (\<lambda>typo ec. count_typo cl ec typo)
     (filter (\<lambda>typo. length (letters_of typo) = length cl) typos) ec"
  by (induction typos arbitrary: ec) (simp_all add: count_typo_skip)

lemma fold_count_typo_sum:
  "fold (\<lambda>typo ec. count_typo cl ec typo) typos ec c =
   ec c + (\<Sum>typo\<leftarrow>filter (\<lambda>typo. length (letters_of typo) = length cl) typos.
             mset (map snd (filter (\<lambda>p. fst p = c) (zip cl (letters_of typo)))))"
proof (induction typos arbitrary: ec)
  case Nil
  then show ?case by simp
next
  case (Cons typo typos)
  show ?case
  proof (cases "length (letters_of typo) = length cl")
    case True
    then have "count_typo cl ec typo c =
        ec c + mset (map snd (filter (\<lambda>p. fst p = c) (zip cl (letters_of typo))))"
      by (simp add: count_typo_def Let_def fold_bump_mset)
    with True show ?thesis
      by (simp add: Cons.IH)
  next
    case False
    then show ?thesis
      by (simp add: Cons.IH count_typo_skip)
  qed
qed

text \<open>
  C5. For an entry whose filtered correct word is not empty, the counts after the entry
  are the counts before it plus exactly this: for each typo whose filtered length
  equals that of the filtered correct word, and for no other typo, the typed symbol at
  each position, added to the emission counter of the correct symbol at that position;
  the successor of each symbol of the filtered correct word, added to that symbol's
  transition counter; and the first symbol of the filtered correct word, added to the
  start counter. Neither the transition nor the start counts mention the typos. An
  entry whose filtered correct word is empty changes no count.
\<close>

theorem count_entry_counts:
  "(letters_of w \<noteq> [] \<longrightarrow>
      emission_counts (count_entry w typos cs) c =
        emission_counts cs c +
        (\<Sum>typo\<leftarrow>filter (\<lambda>typo. length (letters_of typo) = length (letters_of w)) typos.
           mset (map snd (filter (\<lambda>p. fst p = c) (zip (letters_of w) (letters_of typo)))))
      \<and> transition_counts (count_entry w typos cs) c =
        transition_counts cs c +
        mset (map snd (filter (\<lambda>p. fst p = c) (zip (letters_of w) (tl (letters_of w)))))
      \<and> start_counts (count_entry w typos cs) = add_mset (hd (letters_of w)) (start_counts cs))
   \<and> (letters_of w = [] \<longrightarrow> count_entry w typos cs = cs)"
  by (simp add: count_entry_def Let_def fold_count_typo_sum fold_bump_mset)

theorem count_entry_counts_witness:
  "count_entry ''123'' [''abc''] empty_counts = empty_counts
   \<and> emission_counts (count_entry ''t-he'' [''teh'', ''th'', ''t-h-e-e'', ''t.e.h''] empty_counts) CHR ''h'' =
       {#CHR ''e'', CHR ''e''#}
   \<and> transition_counts (count_entry ''t-he'' [''teh'', ''th''] empty_counts) CHR ''t'' = {#CHR ''h''#}
   \<and> start_counts (count_entry ''-the'' [''teh'', ''th''] empty_counts) = {#CHR ''t''#}"
proof -
  have l: "letters_of ''123'' = []" "letters_of ''t-he'' = ''the''" "letters_of ''-the'' = ''the''"
    "letters_of ''teh'' = ''teh''" "letters_of ''th'' = ''th''" "letters_of ''t-h-e-e'' = ''thee''"
    "letters_of ''t.e.h'' = ''teh''"
    by (simp_all add: letters_of_def alphabet_def)
  show ?thesis
    using count_entry_counts [of "''123''" "[''abc'']" empty_counts "CHR ''a''"]
      count_entry_counts [of "''t-he''" "[''teh'', ''th'', ''t-h-e-e'', ''t.e.h'']" empty_counts "CHR ''h''"]
      count_entry_counts [of "''t-he''" "[''teh'', ''th'']" empty_counts "CHR ''t''"]
      count_entry_counts [of "''-the''" "[''teh'', ''th'']" empty_counts "CHR ''t''"]
    by (simp add: l empty_counts_def)
qed

text \<open>Only alphabet symbols are ever counted.\<close>

lemma fold_bump_letters:
  "(\<forall>c. set_mset (d c) \<subseteq> A) \<Longrightarrow> snd ` set ps \<subseteq> A \<Longrightarrow>
   set_mset (fold (\<lambda>p d. bump d p) ps d c) \<subseteq> A"
  by (auto simp: fold_bump_mset)

lemma count_typo_letters:
  assumes "\<forall>c. set_mset (ec c) \<subseteq> set alphabet"
  shows "set_mset (count_typo cl ec typo c) \<subseteq> set alphabet"
proof -
  have "snd ` set (zip cl (letters_of typo)) \<subseteq> set alphabet"
    using set_letters_of [of typo] by (auto dest: set_zip_rightD)
  then show ?thesis
    using assms fold_bump_letters [of ec "set alphabet" "zip cl (letters_of typo)" c]
    by (simp add: count_typo_def Let_def)
qed

lemma fold_count_typo_letters:
  "\<forall>c. set_mset (ec c) \<subseteq> set alphabet \<Longrightarrow>
   set_mset (fold (\<lambda>typo ec. count_typo cl ec typo) typos ec c) \<subseteq> set alphabet"
proof (induction typos arbitrary: ec)
  case Nil
  then show ?case by simp
next
  case (Cons typo typos)
  have "\<forall>c. set_mset (count_typo cl ec typo c) \<subseteq> set alphabet"
    using Cons.prems count_typo_letters by blast
  then show ?case
    using Cons.IH [of "count_typo cl ec typo"] by simp
qed

lemma count_entry_letters:
  assumes "letters_only cs"
  shows "letters_only (count_entry w typos cs)"
proof (cases "letters_of w")
  case Nil
  then show ?thesis using assms by (simp add: count_entry_def)
next
  case (Cons x xs)
  have x: "x \<in> set alphabet" and xs: "set xs \<subseteq> set alphabet"
    using set_letters_of [of w] Cons by auto
  have "snd ` set (zip (x # xs) xs) \<subseteq> set alphabet"
    using xs by (auto dest: set_zip_rightD)
  then have tr: "\<And>c. set_mset (fold (\<lambda>p d. bump d p) (zip (x # xs) xs) (transition_counts cs) c)
      \<subseteq> set alphabet"
    using assms fold_bump_letters [of "transition_counts cs" "set alphabet" "zip (x # xs) xs"]
    by (simp add: letters_only_def)
  have em: "\<And>c. set_mset (fold (\<lambda>typo ec. count_typo (x # xs) ec typo) typos (emission_counts cs) c)
      \<subseteq> set alphabet"
    using assms fold_count_typo_letters [of "emission_counts cs"] by (simp add: letters_only_def)
  show ?thesis
    using assms x tr em Cons by (simp add: count_entry_def letters_only_def Let_def)
qed

lemma count_line_letters: "letters_only cs \<Longrightarrow> letters_only (count_line raw cs)"
  by (simp add: count_line_def Let_def count_entry_letters)

lemma fold_count_line_letters: "letters_only cs \<Longrightarrow> letters_only (fold count_line ls cs)"
  by (induction ls arbitrary: cs) (simp_all add: count_line_letters)

lemma count_lines_letters: "letters_only (count_lines ls)"
  unfolding count_lines_def
  by (rule fold_count_line_letters) (simp add: letters_only_def empty_counts_def)

lemma sum_count_alphabet:
  assumes "set_mset M \<subseteq> set alphabet"
  shows "(\<Sum>t\<leftarrow>alphabet. count M t) = size M"
proof -
  have "(\<Sum>t\<leftarrow>alphabet. count M t) = (\<Sum>t\<in>set alphabet. count M t)"
    using distinct_alphabet by (simp add: sum_list_distinct_conv_sum_set)
  also have "\<dots> = (\<Sum>t\<in>set_mset M. count M t)"
    using assms by (intro sum.mono_neutral_right) (auto simp: not_in_iff)
  also have "\<dots> = size M"
    by (simp add: size_multiset_overloaded_eq)
  finally show ?thesis .
qed

subsection \<open>Smoothing\<close>

lemma sum_list_real: "(\<Sum>x\<leftarrow>xs. real (f x)) = real (\<Sum>x\<leftarrow>xs. f x)"
  by (induction xs) simp_all

lemma sum_list_smoothed:
  "(\<Sum>t\<leftarrow>xs. (real (f t) + a) / d) = (real (\<Sum>t\<leftarrow>xs. f t) + real (length xs) * a) / d"
  by (induction xs) (simp_all add: add_divide_distrib algebra_simps)

lemma smoothing_pos: "0 < smoothing"
  by (simp add: smoothing_def)

lemma total_pos: "0 < real n + real V * smoothing"
  by (simp add: V_eq smoothing_def add_nonneg_pos)

lemma transition_row_sum:
  assumes "set_mset (tc c) \<subseteq> set alphabet"
  shows "(\<Sum>t\<leftarrow>alphabet. transition_prob tc c t) = 1"
proof -
  have "(\<Sum>t\<leftarrow>alphabet. transition_prob tc c t) =
        (real (\<Sum>t\<leftarrow>alphabet. count (tc c) t) + real (length alphabet) * smoothing) /
        (real (size (tc c)) + real V * smoothing)"
    unfolding transition_prob_def Let_def by (rule sum_list_smoothed)
  also have "\<dots> = 1"
    using total_pos [of "size (tc c)"] by (simp add: sum_count_alphabet [OF assms] V_def)
  finally show ?thesis .
qed

lemma start_row_sum:
  assumes "set_mset sc \<subseteq> set alphabet"
  shows "(\<Sum>t\<leftarrow>alphabet. start_probability sc t) = 1"
proof -
  have "(\<Sum>t\<leftarrow>alphabet. start_probability sc t) =
        (real (\<Sum>t\<leftarrow>alphabet. count sc t) + real (length alphabet) * smoothing) /
        (real (size sc) + real V * smoothing)"
    unfolding start_probability_def Let_def by (rule sum_list_smoothed)
  also have "\<dots> = 1"
    using total_pos [of "size sc"] by (simp add: sum_count_alphabet [OF assms] V_def)
  finally show ?thesis .
qed

lemma sum_list_diag:
  "distinct xs \<Longrightarrow> c \<in> set xs \<Longrightarrow> (\<Sum>t\<leftarrow>xs. (if c = t then f t + 5 else f t)) = (\<Sum>t\<leftarrow>xs. f t) + (5::nat)"
proof (induction xs)
  case Nil
  then show ?case by simp
next
  case (Cons x xs)
  show ?case
  proof (cases "c = x")
    case True
    then have "c \<notin> set xs" using Cons.prems by simp
    then have "(\<Sum>t\<leftarrow>xs. (if c = t then f t + 5 else f t)) = (\<Sum>t\<leftarrow>xs. f t)"
      by (intro arg_cong [where f = sum_list] map_cong) auto
    then show ?thesis using True by simp
  next
    case False
    then show ?thesis using Cons by simp
  qed
qed

lemma emission_row_sum:
  assumes "set_mset (ec c) \<subseteq> set alphabet" and "c \<in> set alphabet"
  shows "(\<Sum>t\<leftarrow>alphabet. emission_prob ec c t) =
         1 + 5 / (real (size (ec c)) + 27 * (1 / 100))"
proof -
  have "(\<Sum>t\<leftarrow>alphabet. emission_prob ec c t) =
        (real (\<Sum>t\<leftarrow>alphabet. (if c = t then count (ec c) t + 5 else count (ec c) t)) + real (length alphabet) * smoothing) /
        (real (size (ec c)) + real V * smoothing)"
    unfolding emission_prob_def Let_def by (rule sum_list_smoothed)
  also have "\<dots> = (real (size (ec c)) + 5 + real V * smoothing) / (real (size (ec c)) + real V * smoothing)"
    by (simp add: sum_list_diag [OF distinct_alphabet assms(2)] sum_count_alphabet [OF assms(1)] V_def)
  also have "\<dots> = 1 + 5 / (real (size (ec c)) + 27 * (1 / 100))"
    using total_pos [of "size (ec c)"] by (simp add: V_eq smoothing_def field_simps)
  finally show ?thesis .
qed

lemma hmm_E_row:
  "c \<in> set alphabet \<Longrightarrow> hmm_E (build_hmm_from_lines ls) c = Some (dict_of alphabet (emission_prob (emission_counts (count_lines ls)) c))"
  by (simp add: build_hmm_from_lines_def hmm_of_counts_def dict_of_def)


lemma hmm_T_row:
  "c \<in> set alphabet \<Longrightarrow> hmm_T (build_hmm_from_lines ls) c = Some (dict_of alphabet (transition_prob (transition_counts (count_lines ls)) c))"
  by (simp add: build_hmm_from_lines_def hmm_of_counts_def dict_of_def)

lemma built_E:
  "s \<in> set alphabet \<Longrightarrow> t \<in> set alphabet \<Longrightarrow>
   lookup2 (hmm_E (build_hmm_from_lines ls)) s t = Inr (emission_prob (emission_counts (count_lines ls)) s t)"
  by (simp add: build_hmm_from_lines_def hmm_of_counts_def lookup2_dict_of)

lemma built_T:
  "s \<in> set alphabet \<Longrightarrow> t \<in> set alphabet \<Longrightarrow>
   lookup2 (hmm_T (build_hmm_from_lines ls)) s t = Inr (transition_prob (transition_counts (count_lines ls)) s t)"
  by (simp add: build_hmm_from_lines_def hmm_of_counts_def lookup2_dict_of)

lemma built_start:
  "s \<in> set alphabet \<Longrightarrow>
   lookup (hmm_start (build_hmm_from_lines ls)) s = Inr (start_probability (start_counts (count_lines ls)) s)"
  by (simp add: build_hmm_from_lines_def hmm_of_counts_def lookup_dict_of)

lemma transition_rows_sum_to_one:
  assumes "s \<in> set alphabet"
  shows "\<exists>row. lookup (hmm_T (build_hmm_from_lines ls)) s = Inr row \<and> row_sum row = 1"
proof -
  have "set_mset (transition_counts (count_lines ls) s) \<subseteq> set alphabet"
    using count_lines_letters [of ls] by (simp add: letters_only_def)
  then show ?thesis
    using assms by (simp add: lookup_def hmm_T_row row_sum_dict_of transition_row_sum)
qed

lemma start_sums_to_one: "row_sum (hmm_start (build_hmm_from_lines ls)) = 1"
proof -
  have "set_mset (start_counts (count_lines ls)) \<subseteq> set alphabet"
    using count_lines_letters [of ls] by (simp add: letters_only_def)
  then show ?thesis
    by (simp add: build_hmm_from_lines_def hmm_of_counts_def row_sum_dict_of start_row_sum)
qed

lemma emission_rows_sum:
  assumes "s \<in> set alphabet"
  shows "\<exists>row. lookup (hmm_E (build_hmm_from_lines ls)) s = Inr row \<and>
           row_sum row = 1 + 5 / (real (size (emission_counts (count_lines ls) s)) + 27 * (1 / 100))"
proof -
  have "set_mset (emission_counts (count_lines ls) s) \<subseteq> set alphabet"
    using count_lines_letters [of ls] by (simp add: letters_only_def)
  then show ?thesis
    using assms by (simp add: lookup_def hmm_E_row row_sum_dict_of emission_row_sum)
qed

text \<open>
  C1. On the corpus of the end-to-end scenario the emission row of \<open>e\<close>, whose raw
  counts total 5, sums to \<open>1027 / 527\<close> and not to 1: the bonus of 5 enters the
  numerator of the diagonal entry but not the row total; the entry for \<open>a\<close> typed
  as \<open>a\<close>, a symbol the corpus never uses, is \<open>501 / 27\<close>, above 1. By
  \<open>emission_rows_sum\<close> every emission row of every trained model sums to
  \<open>1 + 5 / (total + 0.27)\<close>, while the transition rows and the start distribution
  sum to 1 (\<open>transition_rows_sum_to_one\<close>, \<open>start_sums_to_one\<close>).
\<close>

theorem emission_row_not_normalised:
  "(\<exists>row. lookup (hmm_E (build_hmm_from_lines corpus)) CHR ''e'' = Inr row \<and>
          row_sum row = 1027 / 527) \<and>
   lookup2 (hmm_E (build_hmm_from_lines corpus)) CHR ''a'' CHR ''a'' = Inr (501 / 27)"
  using emission_rows_sum [OF in_alphabet_e, of corpus]
  by (simp add: corpus_emission_e built_E in_alphabet_a emission_prob_def corpus_emission_a
      V_eq smoothing_def)

text \<open>
  C4. For every alphabet symbol \<open>s\<close> the diagonal emission entry is computed from
  the raw count of \<open>s\<close> typed as \<open>s\<close> plus 5, whatever that count is, then smoothed:
  \<open>(count + 5 + 0.01) / (total + 27 * 0.01)\<close> with \<open>total\<close> the raw row total.
\<close>

theorem diagonal_bonus:
  assumes "s \<in> set alphabet"
  shows "lookup2 (hmm_E (build_hmm_from_lines ls)) s s =
         Inr ((real (count (emission_counts (count_lines ls) s) s + 5) + 1 / 100) /
              (real (size (emission_counts (count_lines ls) s)) + 27 * (1 / 100)))"
  using assms by (simp add: built_E emission_prob_def V_eq smoothing_def)

theorem diagonal_bonus_witness:
  "lookup2 (hmm_E (build_hmm_from_lines corpus)) CHR ''e'' CHR ''e'' = Inr (801 / 527)"
  using diagonal_bonus [OF in_alphabet_e, of corpus]
  by (simp add: corpus_emission_e)

lemma in_alphabet_b: "CHR ''b'' \<in> set alphabet"
  by (simp add: alphabet_def)

text \<open>
  C2, as stated, fails on the emission diagonal: no \<open>a\<close> occurs in the corpus, so the
  pairs \<open>(a, a)\<close> and \<open>(a, b)\<close> both have training count zero, yet the entry of
  \<open>(a, a)\<close> is neither \<open>0.01 / (total + 27 * 0.01)\<close> nor the entry of \<open>(a, b)\<close>:
  two zero-count pairs of one row do not share one floor.
\<close>

theorem diagonal_floor_counterexample:
  "count (emission_counts (count_lines corpus) CHR ''a'') CHR ''a'' = 0 \<and>
   count (emission_counts (count_lines corpus) CHR ''a'') CHR ''b'' = 0 \<and>
   lookup2 (hmm_E (build_hmm_from_lines corpus)) CHR ''a'' CHR ''a'' \<noteq>
     Inr ((1 / 100) / (real (size (emission_counts (count_lines corpus) CHR ''a'')) + 27 * (1 / 100))) \<and>
   lookup2 (hmm_E (build_hmm_from_lines corpus)) CHR ''a'' CHR ''a'' \<noteq>
     lookup2 (hmm_E (build_hmm_from_lines corpus)) CHR ''a'' CHR ''b''"
  by (simp add: built_E in_alphabet_a in_alphabet_b emission_prob_def corpus_emission_a V_eq smoothing_def)

text \<open>
  C2, amended. For alphabet symbols with training count zero the trained entry is
  strictly positive. In the transition table and in the start table it is the floor
  \<open>0.01 / (total + 27 * 0.01)\<close>, with \<open>total\<close> the sum of the row's counts. In the
  emission table all zero-count entries of a row off the diagonal are equal, and a
  zero-count diagonal entry is strictly greater than them; the value of the emission
  floor is not part of this statement.
\<close>

theorem smoothing_floor_amended:
  assumes "s \<in> set alphabet" and "t \<in> set alphabet" and "u \<in> set alphabet"
  shows "(count (emission_counts (count_lines ls) s) t = 0 \<longrightarrow>
            (\<exists>p. lookup2 (hmm_E (build_hmm_from_lines ls)) s t = Inr p \<and> 0 < p))
       \<and> (count (emission_counts (count_lines ls) s) t = 0 \<and>
          count (emission_counts (count_lines ls) s) u = 0 \<and> t \<noteq> s \<and> u \<noteq> s \<longrightarrow>
            lookup2 (hmm_E (build_hmm_from_lines ls)) s t = lookup2 (hmm_E (build_hmm_from_lines ls)) s u)
       \<and> (count (emission_counts (count_lines ls) s) s = 0 \<and>
          count (emission_counts (count_lines ls) s) t = 0 \<and> t \<noteq> s \<longrightarrow>
            (\<exists>p q. lookup2 (hmm_E (build_hmm_from_lines ls)) s s = Inr p \<and>
                   lookup2 (hmm_E (build_hmm_from_lines ls)) s t = Inr q \<and> q < p))
       \<and> (count (transition_counts (count_lines ls) s) t = 0 \<longrightarrow>
            (\<exists>p. lookup2 (hmm_T (build_hmm_from_lines ls)) s t = Inr p \<and> 0 < p \<and>
                 p = (1 / 100) / (real (size (transition_counts (count_lines ls) s)) + 27 * (1 / 100))))
       \<and> (count (start_counts (count_lines ls)) s = 0 \<longrightarrow>
            (\<exists>p. lookup (hmm_start (build_hmm_from_lines ls)) s = Inr p \<and> 0 < p \<and>
                 p = (1 / 100) / (real (size (start_counts (count_lines ls))) + 27 * (1 / 100))))"
proof -
  have pos: "0 < real n + 27 / 100" for n :: nat
    by (simp add: add_nonneg_pos)
  have "(1 / 100) / (real n + 27 / 100) < (5 + 1 / 100) / (real n + 27 / 100)" for n :: nat
    using pos [of n] by (intro divide_strict_right_mono) simp_all
  then show ?thesis
    using assms pos
    by (simp add: built_E built_T built_start emission_prob_def transition_prob_def
        start_probability_def V_eq smoothing_def)
qed

theorem smoothing_floor_amended_witness:
  "(\<exists>p. lookup2 (hmm_E (build_hmm_from_lines corpus)) CHR ''a'' CHR ''e'' = Inr p \<and> 0 < p)
   \<and> lookup2 (hmm_E (build_hmm_from_lines corpus)) CHR ''a'' CHR ''e'' =
      lookup2 (hmm_E (build_hmm_from_lines corpus)) CHR ''a'' CHR ''b''
   \<and> (\<exists>p q. lookup2 (hmm_E (build_hmm_from_lines corpus)) CHR ''a'' CHR ''a'' = Inr p \<and>
            lookup2 (hmm_E (build_hmm_from_lines corpus)) CHR ''a'' CHR ''e'' = Inr q \<and> q < p)
   \<and> lookup2 (hmm_T (build_hmm_from_lines corpus)) CHR ''e'' CHR ''a'' = Inr (1 / 227)
   \<and> lookup (hmm_start (build_hmm_from_lines corpus)) CHR ''e'' = Inr (1 / 227)"
proof -
  have zero: "count (emission_counts (count_lines corpus) CHR ''a'') c = 0" for c
    by (simp add: corpus_emission_a)
  have ne: "CHR ''e'' \<noteq> CHR ''a''" "CHR ''b'' \<noteq> CHR ''a''"
    by simp_all
  have row_a:
    "(\<exists>p. lookup2 (hmm_E (build_hmm_from_lines corpus)) CHR ''a'' CHR ''e'' = Inr p \<and> 0 < p)
     \<and> lookup2 (hmm_E (build_hmm_from_lines corpus)) CHR ''a'' CHR ''e'' =
        lookup2 (hmm_E (build_hmm_from_lines corpus)) CHR ''a'' CHR ''b''
     \<and> (\<exists>p q. lookup2 (hmm_E (build_hmm_from_lines corpus)) CHR ''a'' CHR ''a'' = Inr p \<and>
            lookup2 (hmm_E (build_hmm_from_lines corpus)) CHR ''a'' CHR ''e'' = Inr q \<and> q < p)"
    using smoothing_floor_amended [OF in_alphabet_a in_alphabet_e in_alphabet_b, of corpus]
      zero [of "CHR ''a''"] zero [of "CHR ''e''"] zero [of "CHR ''b''"] ne
    by blast
  have "(\<exists>p. lookup2 (hmm_T (build_hmm_from_lines corpus)) CHR ''e'' CHR ''a'' = Inr p \<and> p = 1 / 227)
     \<and> (\<exists>p. lookup (hmm_start (build_hmm_from_lines corpus)) CHR ''e'' = Inr p \<and> p = 1 / 227)"
    using smoothing_floor_amended [OF in_alphabet_e in_alphabet_a in_alphabet_b, of corpus]
    by (auto simp: corpus_transition_e corpus_start)
  then have "lookup2 (hmm_T (build_hmm_from_lines corpus)) CHR ''e'' CHR ''a'' = Inr (1 / 227)
     \<and> lookup (hmm_start (build_hmm_from_lines corpus)) CHR ''e'' = Inr (1 / 227)"
    by auto
  with row_a show ?thesis
    by blast
qed

subsection \<open>Decoding\<close>

lemma hmm_alphabet_built: "hmm_alphabet (build_hmm_from_lines ls) = alphabet"
  by (simp add: build_hmm_from_lines_def hmm_of_counts_def)

text \<open>The shape of the tables and of the decoded path.\<close>

lemma bind_res_eq_Inr:
  "bind_res m f = Inr r \<longleftrightarrow> (\<exists>v. m = Inr v \<and> f v = Inr r)"
  by (cases m) simp_all

lemma lookup_eq_Inr: "lookup d k = Inr v \<longleftrightarrow> d k = Some v"
  by (simp add: lookup_def split: option.splits)

lemma best_prev_loop_snd:
  "best_prev_loop h Mprev state ot ps acc = Inr r \<Longrightarrow>
   snd r = snd acc \<or> (\<exists>p\<in>set ps. snd r = Some p)"
proof (induction ps arbitrary: acc)
  case Nil
  then show ?case by auto
next
  case (Cons p ps)
  from Cons.prems obtain val where
    r: "(if val > fst acc then best_prev_loop h Mprev state ot ps (val, Some p)
         else best_prev_loop h Mprev state ot ps acc) = Inr r"
    by (auto simp: bind_res_eq_Inr)
  show ?case
  proof (cases "val > fst acc")
    case True
    with r Cons.IH [of "(val, Some p)"] show ?thesis by auto
  next
    case False
    with r Cons.IH [of acc] show ?thesis by auto
  qed
qed

lemma step_states_back_ok:
  "step_states h Mprev ot states MB = Inr MB' \<Longrightarrow> back_ok (set (hmm_alphabet h)) (snd MB) \<Longrightarrow>
   back_ok (set (hmm_alphabet h)) (snd MB')"
proof (induction states arbitrary: MB)
  case Nil
  then show ?case by simp
next
  case (Cons state states)
  from Cons.prems(1) obtain r where
    r: "best_prev_loop h Mprev state ot (hmm_alphabet h) (LOG_ZERO, None) = Inr r" and
    rest: "step_states h Mprev ot states ((fst MB)(state \<mapsto> fst r), (snd MB)(state \<mapsto> snd r)) = Inr MB'"
    by (auto simp: bind_res_eq_Inr)
  have "snd r = None \<or> (\<exists>p\<in>set (hmm_alphabet h). snd r = Some p)"
    using best_prev_loop_snd [OF r] by simp
  then have "back_ok (set (hmm_alphabet h)) ((snd MB)(state \<mapsto> snd r))"
    using Cons.prems(2) by (auto simp: back_ok_def)
  then show ?case
    using Cons.IH [OF rest] by (simp only: snd_conv)
qed

lemma init_states_back_ok:
  "init_states h o0 states MB = Inr MB' \<Longrightarrow> back_ok A (snd MB) \<Longrightarrow> back_ok A (snd MB')"
proof (induction states arbitrary: MB)
  case Nil
  then show ?case by simp
next
  case (Cons state states)
  from Cons.prems(1) obtain v where
    rest: "init_states h o0 states ((fst MB)(state \<mapsto> v), (snd MB)(state \<mapsto> None)) = Inr MB'"
    by (auto simp: bind_res_eq_Inr)
  have "back_ok A ((snd MB)(state \<mapsto> None))"
    using Cons.prems(2) by (auto simp: back_ok_def)
  then show ?case
    using Cons.IH [OF rest] by (simp only: snd_conv)
qed

lemma recursion_tables:
  "recursion h obs tables = Inr tables' \<Longrightarrow>
   (\<forall>B\<in>set (snd tables). back_ok (set (hmm_alphabet h)) B) \<Longrightarrow>
   length (snd tables') = length (snd tables) + length obs \<and>
   length (fst tables') = length (fst tables) + length obs \<and>
   (\<forall>B\<in>set (snd tables'). back_ok (set (hmm_alphabet h)) B)"
proof (induction obs arbitrary: tables)
  case Nil
  then show ?case by simp
next
  case (Cons ot obs)
  from Cons.prems(1) obtain MB where
    step: "step_states h (last (fst tables)) ot (hmm_alphabet h) (Map.empty, Map.empty) = Inr MB" and
    rest: "recursion h obs (fst tables @ [fst MB], snd tables @ [snd MB]) = Inr tables'"
    by (auto simp: bind_res_eq_Inr)
  have "back_ok (set (hmm_alphabet h)) (snd MB)"
    using step_states_back_ok [OF step] by (simp add: back_ok_def)
  then have "\<forall>B\<in>set (snd (fst tables @ [fst MB], snd tables @ [snd MB])). back_ok (set (hmm_alphabet h)) B"
    using Cons.prems(2) by simp
  from Cons.IH [OF rest this] show ?case by simp
qed

lemma forward_tables:
  assumes "forward h obs = Inr tables"
  shows "length (snd tables) = length obs \<and> length (fst tables) = length obs \<and>
         (\<forall>B\<in>set (snd tables). back_ok (set (hmm_alphabet h)) B)"
proof (cases obs)
  case Nil
  with assms show ?thesis by simp
next
  case (Cons o0 rest)
  from assms Cons obtain MB where
    init: "init_states h o0 (hmm_alphabet h) (Map.empty, Map.empty) = Inr MB" and
    r: "recursion h rest ([fst MB], [snd MB]) = Inr tables"
    by (auto simp: bind_res_eq_Inr)
  have "back_ok (set (hmm_alphabet h)) (snd MB)"
    using init_states_back_ok [OF init] by (simp add: back_ok_def)
  then have "\<forall>B\<in>set (snd ([fst MB], [snd MB])). back_ok (set (hmm_alphabet h)) B"
    by simp
  from recursion_tables [OF r this] Cons show ?thesis by simp
qed

lemma max_loop_in_keys:
  "max_loop d ks best = Inr k \<Longrightarrow> k = fst best \<or> k \<in> set ks"
proof (induction ks arbitrary: best)
  case Nil
  then show ?case by simp
next
  case (Cons x ks)
  from Cons.prems obtain v where
    r: "(if v > snd best then max_loop d ks (x, v) else max_loop d ks best) = Inr k"
    by (auto simp: bind_res_eq_Inr)
  show ?case
  proof (cases "v > snd best")
    case True
    with r Cons.IH [of "(x, v)"] show ?thesis by auto
  next
    case False
    with r Cons.IH [of best] show ?thesis by auto
  qed
qed

lemma max_key_in_keys: "max_key d ks = Inr k \<Longrightarrow> k \<in> set ks"
  by (cases ks) (auto simp: bind_res_eq_Inr dest: max_loop_in_keys)

lemma backtrack_path:
  "backtrack Bs n best path = Inr p \<Longrightarrow>
   length p = length path + n + 1 \<and>
   ((\<forall>B\<in>set Bs. back_ok A B) \<longrightarrow> sym_ok A best \<longrightarrow> (\<forall>x\<in>set path. sym_ok A x) \<longrightarrow>
      (\<forall>x\<in>set p. sym_ok A x))"
proof (induction n arbitrary: best path)
  case 0
  then show ?case by auto
next
  case (Suc n)
  from Suc.prems have in_range: "Suc n < length Bs"
    by (simp split: if_splits)
  with Suc.prems obtain b where best: "best = Some b" and
    step: "bind_res (lookup (Bs ! Suc n) b) (\<lambda>prev. backtrack Bs n prev (path @ [best])) = Inr p"
    by (cases best) simp_all
  then obtain prev where
    prev: "(Bs ! Suc n) b = Some prev" and
    rest: "backtrack Bs n prev (path @ [best]) = Inr p"
    unfolding bind_res_eq_Inr lookup_eq_Inr by blast
  have "(\<forall>B\<in>set Bs. back_ok A B) \<longrightarrow> sym_ok A prev"
    using in_range prev by (cases prev) (auto simp: back_ok_def sym_ok_def dest: nth_mem)
  then show ?case
    using Suc.IH [OF rest] best by (simp add: sym_ok_def)
qed

lemma join_path_map: "join_path xs = Inr s \<Longrightarrow> xs = map Some s"
proof (induction xs arbitrary: s)
  case Nil
  then show ?case by simp
next
  case (Cons x xs)
  then show ?case
    by (cases x) (auto simp: bind_res_eq_Inr)
qed

lemma viterbi_path_result:
  assumes "viterbi_path h obs = Inr s" and "obs \<noteq> []"
  shows "length s = length obs \<and> set s \<subseteq> set (hmm_alphabet h)"
proof -
  from assms(1) obtain tables best path where
    f: "forward h obs = Inr tables" and
    m: "max_key (last (fst tables)) (hmm_alphabet h) = Inr best" and
    b: "backtrack (snd tables) (length obs - 1) (Some best) [] = Inr path" and
    j: "join_path (rev path) = Inr s"
    by (auto simp: viterbi_path_def bind_res_eq_Inr)
  let ?A = "set (hmm_alphabet h)"
  have rows: "\<forall>B\<in>set (snd tables). back_ok ?A B"
    using forward_tables [OF f] by simp
  have best: "sym_ok ?A (Some best)"
    using max_key_in_keys [OF m] by (simp add: sym_ok_def)
  have len: "length path = length obs"
    using backtrack_path [OF b, of ?A] assms(2) by (cases obs) auto
  have ok: "\<forall>x\<in>set path. sym_ok ?A x"
    using backtrack_path [OF b, of ?A] rows best by simp
  have eq: "rev path = map Some s"
    using join_path_map [OF j] .
  then have "length (rev path) = length (map Some s)"
    by simp
  then have "length s = length path"
    by simp
  moreover have "set s \<subseteq> ?A"
  proof
    fix c assume "c \<in> set s"
    then have "Some c \<in> set (rev path)" using eq by simp
    then show "c \<in> ?A" using ok by (auto simp: sym_ok_def)
  qed
  ultimately show ?thesis using len by simp
qed

text \<open>
  When every table entry has a logarithm of at least \<open>-b\<close> and the word is short
  enough for the scores to stay above \<^verbatim>\<open>LOG_ZERO\<close>, every state gets a backpointer at
  every time step and decoding returns.
\<close>

lemma init_states_above:
  assumes "tables_above h b" and "o0 \<in> set (hmm_alphabet h)"
  shows "set states \<subseteq> set (hmm_alphabet h) \<Longrightarrow>
    \<exists>MB'. init_states h o0 states MB = Inr MB' \<and>
      (\<forall>s\<in>set states. \<exists>x. fst MB' s = Some x \<and> - 2 * b \<le> x) \<and>
      (\<forall>s. s \<notin> set states \<longrightarrow> fst MB' s = fst MB s)"
proof (induction states arbitrary: MB)
  case Nil
  then show ?case by simp
next
  case (Cons state states)
  then have st: "state \<in> set (hmm_alphabet h)" and sub: "set states \<subseteq> set (hmm_alphabet h)"
    by simp_all
  from assms(1) st obtain ps where ps: "lookup (hmm_start h) state = Inr ps" "- b \<le> log_value ps"
    unfolding tables_above_def by blast
  from assms st obtain pe where pe: "lookup2 (hmm_E h) state o0 = Inr pe" "- b \<le> log_value pe"
    unfolding tables_above_def by blast
  let ?MB = "((fst MB)(state \<mapsto> log_value ps + log_value pe), (snd MB)(state \<mapsto> None))"
  from Cons.IH [OF sub, of ?MB] obtain MB' where
    r: "init_states h o0 states ?MB = Inr MB'" and
    a: "\<forall>s\<in>set states. \<exists>x. fst MB' s = Some x \<and> - 2 * b \<le> x" and
    u: "\<forall>s. s \<notin> set states \<longrightarrow> fst MB' s = fst ?MB s"
    by blast
  have run: "init_states h o0 (state # states) MB = Inr MB'"
    using ps(1) pe(1) r by (simp add: safe_log_value)
  have "\<exists>x. fst MB' state = Some x \<and> - 2 * b \<le> x"
  proof (cases "state \<in> set states")
    case True
    with a show ?thesis by blast
  next
    case False
    with u have "fst MB' state = Some (log_value ps + log_value pe)" by simp
    with ps(2) pe(2) show ?thesis by simp
  qed
  with a u run show ?case by auto
qed

lemma candidate_above:
  assumes "tables_above h b" and "row_above (set (hmm_alphabet h)) Mprev v"
    and "p \<in> set (hmm_alphabet h)" and "state \<in> set (hmm_alphabet h)" and "ot \<in> set (hmm_alphabet h)"
  shows "\<exists>x. candidate h Mprev state ot p = Inr x \<and> v - 2 * b \<le> x"
proof -
  from assms(2,3) obtain mp where mp: "Mprev p = Some mp" "v \<le> mp"
    unfolding row_above_def by blast
  from assms(1,3,4) obtain pt where pt: "lookup2 (hmm_T h) p state = Inr pt" "- b \<le> log_value pt"
    unfolding tables_above_def by blast
  from assms(1,4,5) obtain pe where pe: "lookup2 (hmm_E h) state ot = Inr pe" "- b \<le> log_value pe"
    unfolding tables_above_def by blast
  have "candidate h Mprev state ot p = Inr (mp + log_value pt + log_value pe)"
    using mp(1) pt(1) pe(1) by (simp add: candidate_def lookup_def safe_log_value)
  moreover have "v - 2 * b \<le> mp + log_value pt + log_value pe"
    using mp(2) pt(2) pe(2) by simp
  ultimately show ?thesis by blast
qed

lemma best_prev_loop_keeps:
  assumes "\<forall>p\<in>set ps. \<exists>x. candidate h Mprev state ot p = Inr x"
    and "set ps \<subseteq> A" and "w \<le> fst acc" and "\<exists>p\<in>A. snd acc = Some p"
  shows "\<exists>r. best_prev_loop h Mprev state ot ps acc = Inr r \<and> w \<le> fst r \<and> (\<exists>p\<in>A. snd r = Some p)"
  using assms
proof (induction ps arbitrary: acc)
  case Nil
  then show ?case by simp
next
  case (Cons p ps)
  from Cons.prems(1) obtain x where x: "candidate h Mprev state ot p = Inr x"
    by auto
  have rest: "\<forall>p\<in>set ps. \<exists>x. candidate h Mprev state ot p = Inr x" "set ps \<subseteq> A"
    using Cons.prems(1,2) by simp_all
  show ?case
  proof (cases "x > fst acc")
    case True
    have "\<exists>r. best_prev_loop h Mprev state ot ps (x, Some p) = Inr r \<and> w \<le> fst r \<and> (\<exists>p\<in>A. snd r = Some p)"
      using True Cons.prems(2,3) by (intro Cons.IH rest) auto
    with x True show ?thesis by simp
  next
    case False
    have "\<exists>r. best_prev_loop h Mprev state ot ps acc = Inr r \<and> w \<le> fst r \<and> (\<exists>p\<in>A. snd r = Some p)"
      using Cons.prems(3,4) by (intro Cons.IH rest)
    with x False show ?thesis by simp
  qed
qed

lemma best_prev_loop_above:
  assumes "tables_above h b" and "row_above (set (hmm_alphabet h)) Mprev v"
    and "state \<in> set (hmm_alphabet h)" and "ot \<in> set (hmm_alphabet h)"
    and "LOG_ZERO < v - 2 * b"
  shows "\<exists>r. best_prev_loop h Mprev state ot (hmm_alphabet h) (LOG_ZERO, None) = Inr r \<and>
             v - 2 * b \<le> fst r \<and> (\<exists>p\<in>set (hmm_alphabet h). snd r = Some p)"
proof (cases "hmm_alphabet h")
  case Nil
  with assms(3) show ?thesis by simp
next
  case (Cons p ps)
  let ?A = "set (hmm_alphabet h)"
  have all: "\<forall>q\<in>?A. \<exists>x. candidate h Mprev state ot q = Inr x \<and> v - 2 * b \<le> x"
    using candidate_above [OF assms(1,2) _ assms(3,4)] by blast
  have pA: "p \<in> ?A" and sub: "set ps \<subseteq> ?A"
    using Cons by auto
  from all pA obtain x where x: "candidate h Mprev state ot p = Inr x" "v - 2 * b \<le> x"
    by blast
  have "\<forall>q\<in>set ps. \<exists>x. candidate h Mprev state ot q = Inr x"
    using all sub by blast
  then have "\<exists>r. best_prev_loop h Mprev state ot ps (x, Some p) = Inr r \<and> v - 2 * b \<le> fst r \<and>
        (\<exists>p\<in>?A. snd r = Some p)"
    using sub x(2) pA by (intro best_prev_loop_keeps) auto
  then obtain r where r: "best_prev_loop h Mprev state ot ps (x, Some p) = Inr r"
    "v - 2 * b \<le> fst r" "\<exists>p\<in>?A. snd r = Some p"
    by blast
  have "x > LOG_ZERO"
    using x(2) assms(5) by simp
  then have "best_prev_loop h Mprev state ot (hmm_alphabet h) (LOG_ZERO, None) = Inr r"
    using x(1) r(1) by (simp add: Cons)
  then show ?thesis
    using r(2,3) by blast
qed

lemma step_states_above:
  assumes "tables_above h b" and "row_above (set (hmm_alphabet h)) Mprev v"
    and "ot \<in> set (hmm_alphabet h)" and "LOG_ZERO < v - 2 * b"
  shows "set states \<subseteq> set (hmm_alphabet h) \<Longrightarrow>
    \<exists>MB'. step_states h Mprev ot states MB = Inr MB' \<and>
      (\<forall>s\<in>set states. (\<exists>x. fst MB' s = Some x \<and> v - 2 * b \<le> x) \<and>
                        (\<exists>p\<in>set (hmm_alphabet h). snd MB' s = Some (Some p))) \<and>
      (\<forall>s. s \<notin> set states \<longrightarrow> fst MB' s = fst MB s \<and> snd MB' s = snd MB s)"
proof (induction states arbitrary: MB)
  case Nil
  then show ?case by simp
next
  case (Cons state states)
  let ?A = "set (hmm_alphabet h)"
  from Cons.prems have st: "state \<in> ?A" and sub: "set states \<subseteq> ?A"
    by simp_all
  from best_prev_loop_above [OF assms(1,2) st assms(3,4)] obtain r p where
    r: "best_prev_loop h Mprev state ot (hmm_alphabet h) (LOG_ZERO, None) = Inr r"
      "v - 2 * b \<le> fst r" "p \<in> ?A" "snd r = Some p"
    by blast
  let ?MB = "((fst MB)(state \<mapsto> fst r), (snd MB)(state \<mapsto> snd r))"
  from Cons.IH [OF sub, of ?MB] obtain MB' where
    run: "step_states h Mprev ot states ?MB = Inr MB'" and
    a: "\<forall>s\<in>set states. (\<exists>x. fst MB' s = Some x \<and> v - 2 * b \<le> x) \<and>
                        (\<exists>p\<in>?A. snd MB' s = Some (Some p))" and
    u: "\<forall>s. s \<notin> set states \<longrightarrow> fst MB' s = fst ?MB s \<and> snd MB' s = snd ?MB s"
    by blast
  have run': "step_states h Mprev ot (state # states) MB = Inr MB'"
    using r(1) run by simp
  have here: "(\<exists>x. fst MB' state = Some x \<and> v - 2 * b \<le> x) \<and>
              (\<exists>p\<in>?A. snd MB' state = Some (Some p))"
  proof (cases "state \<in> set states")
    case True
    with a show ?thesis by blast
  next
    case False
    with u have "fst MB' state = Some (fst r)" "snd MB' state = Some (snd r)"
      by simp_all
    with r(2,3,4) show ?thesis by simp
  qed
  have "\<forall>s. s \<notin> set (state # states) \<longrightarrow> fst MB' s = fst MB s \<and> snd MB' s = snd MB s"
    using u by simp
  with run' here a show ?case
    by (intro exI [of _ MB']) simp
qed

lemma recursion_above:
  assumes "tables_above h b" and "0 \<le> b"
  shows "set obs \<subseteq> set (hmm_alphabet h) \<Longrightarrow> fst tables \<noteq> [] \<Longrightarrow>
    row_above (set (hmm_alphabet h)) (last (fst tables)) v \<Longrightarrow>
    LOG_ZERO < v - 2 * b * real (length obs) \<Longrightarrow>
    \<exists>tables'. recursion h obs tables = Inr tables' \<and> fst tables' \<noteq> [] \<and>
      (\<forall>s\<in>set (hmm_alphabet h). \<exists>x. last (fst tables') s = Some x) \<and>
      length (snd tables') = length (snd tables) + length obs \<and>
      (\<forall>i. length (snd tables) \<le> i \<and> i < length (snd tables') \<longrightarrow>
           full_back (set (hmm_alphabet h)) (snd tables' ! i))"
proof (induction obs arbitrary: tables v)
  case Nil
  then show ?case by (auto simp: row_above_def)
next
  case (Cons ot obs)
  let ?A = "set (hmm_alphabet h)"
  from Cons.prems(1) have ot: "ot \<in> ?A" and sub: "set obs \<subseteq> ?A"
    by simp_all
  have "0 \<le> 2 * b * real (length obs)"
    using assms(2) by simp
  then have gap: "LOG_ZERO < v - 2 * b"
    using Cons.prems(4) by (simp add: algebra_simps)
  from step_states_above [OF assms(1) Cons.prems(3) ot gap, of "hmm_alphabet h" "(Map.empty, Map.empty)"]
  obtain MB where
    step: "step_states h (last (fst tables)) ot (hmm_alphabet h) (Map.empty, Map.empty) = Inr MB" and
    rows: "\<forall>s\<in>?A. (\<exists>x. fst MB s = Some x \<and> v - 2 * b \<le> x) \<and> (\<exists>p\<in>?A. snd MB s = Some (Some p))"
    by auto
  let ?tables = "(fst tables @ [fst MB], snd tables @ [snd MB])"
  have ra: "row_above ?A (last (fst ?tables)) (v - 2 * b)"
    using rows by (simp add: row_above_def)
  have gap': "LOG_ZERO < (v - 2 * b) - 2 * b * real (length obs)"
    using Cons.prems(4) by (simp add: algebra_simps)
  have ne: "fst ?tables \<noteq> []"
    by simp
  from Cons.IH [OF sub ne ra gap'] obtain tables' where
    run: "recursion h obs ?tables = Inr tables'" and
    ne': "fst tables' \<noteq> []" and
    lastrow: "\<forall>s\<in>?A. \<exists>x. last (fst tables') s = Some x" and
    len: "length (snd tables') = length (snd ?tables) + length obs" and
    new: "\<forall>i. length (snd ?tables) \<le> i \<and> i < length (snd tables') \<longrightarrow> full_back ?A (snd tables' ! i)"
    by blast
  have keep: "snd tables' ! length (snd tables) = snd MB"
  proof -
    have "\<And>obs tables tables' i. recursion h obs tables = Inr tables' \<Longrightarrow> i < length (snd tables) \<Longrightarrow>
          snd tables' ! i = snd tables ! i"
    proof -
      fix obs tables tables' i
      show "recursion h obs tables = Inr tables' \<Longrightarrow> i < length (snd tables) \<Longrightarrow>
          snd tables' ! i = snd tables ! i"
      proof (induction obs arbitrary: tables)
        case Nil
        then show ?case by simp
      next
        case (Cons a obs)
        from Cons.prems(1) obtain MB where
          "recursion h obs (fst tables @ [fst MB], snd tables @ [snd MB]) = Inr tables'"
          by (auto simp: bind_res_eq_Inr)
        from Cons.IH [OF this] Cons.prems(2) show ?case
          by (simp add: nth_append)
      qed
    qed
    from this [OF run, of "length (snd tables)"] show ?thesis by simp
  qed
  have run': "recursion h (ot # obs) tables = Inr tables'"
    using step run by simp
  have fb: "full_back ?A (snd MB)"
    using rows by (simp add: full_back_def)
  have "\<forall>i. length (snd tables) \<le> i \<and> i < length (snd tables') \<longrightarrow> full_back ?A (snd tables' ! i)"
  proof (intro allI impI)
    fix i assume i: "length (snd tables) \<le> i \<and> i < length (snd tables')"
    show "full_back ?A (snd tables' ! i)"
    proof (cases "i = length (snd tables)")
      case True
      with keep fb show ?thesis by simp
    next
      case False
      with i new show ?thesis by simp
    qed
  qed
  with run' ne' lastrow len show ?case
    by (intro exI [of _ tables']) simp
qed

lemma max_loop_total:
  "\<forall>k\<in>set ks. \<exists>x. d k = Some x \<Longrightarrow> \<exists>k. max_loop d ks best = Inr k"
proof (induction ks arbitrary: best)
  case Nil
  then show ?case by simp
next
  case (Cons a ks)
  then obtain x where "d a = Some x" by auto
  then show ?case
    using Cons by (simp add: lookup_def)
qed

lemma max_key_total:
  "ks \<noteq> [] \<Longrightarrow> \<forall>k\<in>set ks. \<exists>x. d k = Some x \<Longrightarrow> \<exists>k. max_key d ks = Inr k"
proof (cases ks)
  case Nil
  assume "ks \<noteq> []"
  with Nil show ?thesis by simp
next
  case (Cons a rest)
  assume "\<forall>k\<in>set ks. \<exists>x. d k = Some x"
  with Cons obtain x where "d a = Some x" and "\<forall>k\<in>set rest. \<exists>x. d k = Some x"
    by auto
  then show ?thesis
    using Cons max_loop_total [of rest d "(a, x)"] by (simp add: lookup_def)
qed

lemma backtrack_total:
  "b \<in> A \<Longrightarrow> \<forall>i. 1 \<le> i \<and> i \<le> n \<longrightarrow> i < length Bs \<and> full_back A (Bs ! i) \<Longrightarrow>
   \<forall>x\<in>set path. x \<noteq> None \<Longrightarrow>
   \<exists>p. backtrack Bs n (Some b) path = Inr p \<and> (\<forall>x\<in>set p. x \<noteq> None)"
proof (induction n arbitrary: b path)
  case 0
  then show ?case by simp
next
  case (Suc n)
  from Suc.prems(2) have in_range: "Suc n < length Bs" and fb: "full_back A (Bs ! Suc n)"
    by simp_all
  from fb Suc.prems(1) obtain prev where prev: "prev \<in> A" "(Bs ! Suc n) b = Some (Some prev)"
    unfolding full_back_def by blast
  have "\<forall>i. 1 \<le> i \<and> i \<le> n \<longrightarrow> i < length Bs \<and> full_back A (Bs ! i)"
    using Suc.prems(2) by simp
  moreover have "\<forall>x\<in>set (path @ [Some b]). x \<noteq> None"
    using Suc.prems(3) by simp
  ultimately have "\<exists>p. backtrack Bs n (Some prev) (path @ [Some b]) = Inr p \<and> (\<forall>x\<in>set p. x \<noteq> None)"
    using prev(1) by (intro Suc.IH)
  then show ?case
    using in_range prev(2) by (simp add: lookup_def)
qed

lemma join_path_total: "\<forall>x\<in>set xs. x \<noteq> None \<Longrightarrow> \<exists>s. join_path xs = Inr s"
proof (induction xs)
  case Nil
  then show ?case by simp
next
  case (Cons x xs)
  then obtain c s where "x = Some c" "join_path xs = Inr s"
    by auto
  then show ?case by simp
qed

lemma viterbi_path_returns:
  assumes "tables_above h b" and "0 \<le> b" and "obs \<noteq> []" and "set obs \<subseteq> set (hmm_alphabet h)"
    and "2 * b * real (length obs) < 1000000000"
  shows "\<exists>s. viterbi_path h obs = Inr s"
proof -
  let ?A = "set (hmm_alphabet h)"
  from assms(3) obtain o0 rest where obs: "obs = o0 # rest"
    by (cases obs) auto
  with assms(4) have o0: "o0 \<in> ?A" and rest: "set rest \<subseteq> ?A"
    by simp_all
  from init_states_above [OF assms(1) o0, of "hmm_alphabet h" "(Map.empty, Map.empty)"]
  obtain MB where
    init: "init_states h o0 (hmm_alphabet h) (Map.empty, Map.empty) = Inr MB" and
    row0: "\<forall>s\<in>?A. \<exists>x. fst MB s = Some x \<and> - 2 * b \<le> x"
    by auto
  have ra: "row_above ?A (last (fst ([fst MB], [snd MB]))) (- 2 * b)"
    using row0 by (simp add: row_above_def)
  have gap: "LOG_ZERO < - 2 * b - 2 * b * real (length rest)"
    using assms(5) obs by (simp add: LOG_ZERO_def algebra_simps)
  have ne: "fst ([fst MB], [snd MB]) \<noteq> []"
    by simp
  from recursion_above [OF assms(1,2) rest ne ra gap] obtain tables where
    run: "recursion h rest ([fst MB], [snd MB]) = Inr tables" and
    lastrow: "\<forall>s\<in>?A. \<exists>x. last (fst tables) s = Some x" and
    len: "length (snd tables) = length (snd ([fst MB], [snd MB])) + length rest" and
    new: "\<forall>i. length (snd ([fst MB], [snd MB])) \<le> i \<and> i < length (snd tables) \<longrightarrow>
            full_back ?A (snd tables ! i)"
    by blast
  have fw: "forward h obs = Inr tables"
    using init run obs by simp
  have "hmm_alphabet h \<noteq> []"
    using o0 by auto
  from max_key_total [OF this, of "last (fst tables)"] lastrow obtain best where
    best: "max_key (last (fst tables)) (hmm_alphabet h) = Inr best"
    by blast
  have bestA: "best \<in> ?A"
    using max_key_in_keys [OF best] .
  have rows: "\<forall>i. 1 \<le> i \<and> i \<le> length obs - 1 \<longrightarrow>
      i < length (snd tables) \<and> full_back ?A (snd tables ! i)"
    using len new obs by simp
  have "\<forall>x\<in>set ([] :: char option list). x \<noteq> None"
    by simp
  from backtrack_total [OF bestA rows this] obtain path where
    path: "backtrack (snd tables) (length obs - 1) (Some best) [] = Inr path" "\<forall>x\<in>set path. x \<noteq> None"
    by blast
  have "\<forall>x\<in>set (rev path). x \<noteq> None"
    using path(2) by simp
  from join_path_total [OF this] obtain s where "join_path (rev path) = Inr s"
    by blast
  then show ?thesis
    using fw best path(1) by (simp add: viterbi_path_def)
qed

lemma ln_floor:
  assumes "n \<le> N" and "0 \<le> (k::real)"
  shows "- ln (100 * real N + 27) \<le> ln ((k + 1 / 100) / (real n + 27 * (1 / 100)))"
proof -
  have pos: "0 < real n + 27 * (1 / 100)" "0 < 100 * real N + 27"
    by (simp_all add: add_nonneg_pos)
  have "1 / (100 * real N + 27) \<le> 1 / (100 * real n + 27)"
    using assms(1) by (intro divide_left_mono) (simp_all add: add_nonneg_pos)
  also have "\<dots> = (1 / 100) / (real n + 27 * (1 / 100))"
    by (simp add: field_simps)
  also have "\<dots> \<le> (k + 1 / 100) / (real n + 27 * (1 / 100))"
    using assms(2) pos(1) by (intro divide_right_mono) simp_all
  finally have le: "1 / (100 * real N + 27) \<le> (k + 1 / 100) / (real n + 27 * (1 / 100))" .
  have "- ln (100 * real N + 27) = ln (1 / (100 * real N + 27))"
    using pos(2) by (simp add: ln_div)
  also have "\<dots> \<le> ln ((k + 1 / 100) / (real n + 27 * (1 / 100)))"
    using le pos(2) by (intro ln_mono) simp_all
  finally show ?thesis .
qed

lemma log_value_floor:
  assumes "n \<le> N" and "0 \<le> (k::real)"
  shows "- ln (100 * real N + 27) \<le> log_value ((k + 1 / 100) / (real n + 27 * (1 / 100)))"
proof -
  have "0 < (k + 1 / 100) / (real n + 27 * (1 / 100))"
    using assms(2) by (intro divide_pos_pos) (simp_all add: add_nonneg_pos)
  then show ?thesis
    using ln_floor [OF assms] by (simp add: log_value_def)
qed

lemma trained_tables_above:
  assumes "counts_le (count_lines ls) N"
  shows "tables_above (build_hmm_from_lines ls) (ln (100 * real N + 27))"
proof -
  let ?cs = "count_lines ls"
  have e: "- ln (100 * real N + 27) \<le> log_value (emission_prob (emission_counts ?cs) s t)" for s t
    using assms log_value_floor [of "size (emission_counts ?cs s)" N
        "real (if s = t then count (emission_counts ?cs s) t + 5 else count (emission_counts ?cs s) t)"]
    by (simp add: counts_le_def emission_prob_def V_eq smoothing_def Let_def)
  have t: "- ln (100 * real N + 27) \<le> log_value (transition_prob (transition_counts ?cs) s t)" for s t
    using assms log_value_floor [of "size (transition_counts ?cs s)" N
        "real (count (transition_counts ?cs s) t)"]
    by (simp add: counts_le_def transition_prob_def V_eq smoothing_def Let_def)
  have s: "- ln (100 * real N + 27) \<le> log_value (start_probability (start_counts ?cs) s)" for s
    using assms log_value_floor [of "size (start_counts ?cs)" N "real (count (start_counts ?cs) s)"]
    by (simp add: counts_le_def start_probability_def V_eq smoothing_def Let_def)
  show ?thesis
    unfolding tables_above_def hmm_alphabet_built
    using e t s by (simp add: built_E built_T built_start)
qed

lemma set_observed: "set (observed w h) \<subseteq> set (hmm_alphabet h)"
  by (auto simp: observed_def)

lemma viterbi_returns_trained:
  assumes "counts_le (count_lines ls) N" and "observed w (build_hmm_from_lines ls) \<noteq> []"
    and "2 * ln (100 * real N + 27) * real (length (observed w (build_hmm_from_lines ls))) < 1000000000"
  shows "\<exists>s. viterbi w (build_hmm_from_lines ls) = Inr s"
proof -
  have "0 \<le> ln (100 * real N + 27)"
    by (intro ln_ge_zero) simp
  from viterbi_path_returns [OF trained_tables_above [OF assms(1)] this assms(2) set_observed assms(3)]
  show ?thesis
    using assms(2) by (simp add: viterbi_def)
qed

text \<open>
  The recursion step. When some candidate exceeds \<^verbatim>\<open>LOG_ZERO\<close> the loop stores the
  maximum of the candidates and the first symbol, in alphabet order, that attains it;
  when none does it stores \<^verbatim>\<open>LOG_ZERO\<close> and \<^verbatim>\<open>None\<close>.
\<close>

lemma best_prev_loop_fold:
  "\<forall>p\<in>set ps. candidate h Mprev state ot p = Inr (c p) \<Longrightarrow>
   best_prev_loop h Mprev state ot ps acc = Inr (fold (keep_max c) ps acc)"
  by (induction ps arbitrary: acc) (simp_all add: keep_max_def)

lemma fold_keep_max:
  "fold (keep_max c) ps (m, b) = r \<Longrightarrow>
   m \<le> fst r \<and> (\<forall>p\<in>set ps. c p \<le> fst r) \<and>
   ((\<forall>p\<in>set ps. c p \<le> m) \<longrightarrow> r = (m, b)) \<and>
   ((\<exists>p\<in>set ps. c p > m) \<longrightarrow> fst r \<in> c ` set ps \<and> snd r = find (\<lambda>p. c p = fst r) ps)"
proof (induction ps arbitrary: m b)
  case Nil
  then show ?case by auto
next
  case (Cons p ps)
  show ?case
  proof (cases "c p > m")
    case True
    then have "keep_max c p (m, b) = (c p, Some p)"
      by (simp add: keep_max_def)
    then have "fold (keep_max c) ps (c p, Some p) = r"
      using Cons.prems by simp
    from Cons.IH [OF this] have
      ih1: "c p \<le> fst r" and ih2: "\<forall>q\<in>set ps. c q \<le> fst r" and
      ih3: "(\<forall>q\<in>set ps. c q \<le> c p) \<longrightarrow> r = (c p, Some p)" and
      ih4: "(\<exists>q\<in>set ps. c q > c p) \<longrightarrow> fst r \<in> c ` set ps \<and> snd r = find (\<lambda>q. c q = fst r) ps"
      by blast+
    have "fst r \<in> c ` set (p # ps) \<and> snd r = find (\<lambda>q. c q = fst r) (p # ps)"
    proof (cases "\<forall>q\<in>set ps. c q \<le> c p")
      case True
      with ih3 show ?thesis by auto
    next
      case False
      then obtain q where q: "q \<in> set ps" "c q > c p" by force
      with ih2 have "c p \<noteq> fst r" by force
      with ih4 q show ?thesis by auto
    qed
    with True ih1 ih2 show ?thesis by auto
  next
    case False
    then have "keep_max c p (m, b) = (m, b)"
      by (simp add: keep_max_def)
    then have "fold (keep_max c) ps (m, b) = r"
      using Cons.prems by simp
    from Cons.IH [OF this] have
      ih1: "m \<le> fst r" and ih2: "\<forall>q\<in>set ps. c q \<le> fst r" and
      ih3: "(\<forall>q\<in>set ps. c q \<le> m) \<longrightarrow> r = (m, b)" and
      ih4: "(\<exists>q\<in>set ps. c q > m) \<longrightarrow> fst r \<in> c ` set ps \<and> snd r = find (\<lambda>q. c q = fst r) ps"
      by blast+
    have "fst r \<in> c ` set (p # ps) \<and> snd r = find (\<lambda>q. c q = fst r) (p # ps)"
      if "\<exists>q\<in>set (p # ps). c q > m"
    proof -
      from that False obtain q where q: "q \<in> set ps" "c q > m" by auto
      with ih2 False have "c p \<noteq> fst r" by force
      with ih4 q show ?thesis by auto
    qed
    with False ih1 ih2 ih3 show ?thesis by auto
  qed
qed

lemma find_first_max:
  assumes "v \<in> c ` set ps" and "\<forall>p\<in>set ps. c p \<le> v"
  shows "find (\<lambda>p. c p = v) ps = first_max c ps \<and> Max (c ` set ps) = v"
proof -
  have mx: "Max (c ` set ps) = v"
    using assms by (intro Max_eqI) auto
  have "find (\<lambda>p. c p = v) ps = find (\<lambda>p. \<forall>q\<in>set ps. c q \<le> c p) ps"
  proof (rule find_cong [OF refl])
    fix p assume "p \<in> set ps"
    show "(c p = v) = (\<forall>q\<in>set ps. c q \<le> c p)"
    proof
      assume "c p = v"
      with assms(2) show "\<forall>q\<in>set ps. c q \<le> c p" by simp
    next
      assume a: "\<forall>q\<in>set ps. c q \<le> c p"
      from assms(1) obtain q where "q \<in> set ps" "c q = v" by auto
      with a have "v \<le> c p" by auto
      moreover have "c p \<le> v" using assms(2) \<open>p \<in> set ps\<close> by simp
      ultimately show "c p = v" by simp
    qed
  qed
  with mx show ?thesis by (simp add: first_max_def)
qed

lemma best_prev_above_sentinel:
  assumes "\<forall>p\<in>set ps. candidate h Mprev state ot p = Inr (c p)"
    and "\<exists>p\<in>set ps. c p > LOG_ZERO"
  shows "best_prev_loop h Mprev state ot ps (LOG_ZERO, None) = Inr (Max (c ` set ps), first_max c ps)"
proof -
  let ?r = "fold (keep_max c) ps (LOG_ZERO, None)"
  from fold_keep_max [OF refl, where c = c and ps = ps and m = LOG_ZERO and b = None] assms(2) have
    le: "\<forall>p\<in>set ps. c p \<le> fst ?r" and mem: "fst ?r \<in> c ` set ps" and
    bp: "snd ?r = find (\<lambda>p. c p = fst ?r) ps"
    by blast+
  from find_first_max [OF mem le] bp have "?r = (Max (c ` set ps), first_max c ps)"
    by (simp add: prod_eq_iff)
  then show ?thesis
    using best_prev_loop_fold [OF assms(1), of "(LOG_ZERO, None)"] by simp
qed

lemma best_prev_at_sentinel:
  assumes "\<forall>p\<in>set ps. candidate h Mprev state ot p = Inr (c p)"
    and "\<forall>p\<in>set ps. c p \<le> LOG_ZERO"
  shows "best_prev_loop h Mprev state ot ps (LOG_ZERO, None) = Inr (LOG_ZERO, None)"
  using fold_keep_max [OF refl, where c = c and ps = ps and m = LOG_ZERO and b = None] assms(2)
    best_prev_loop_fold [OF assms(1), of "(LOG_ZERO, None)"]
  by simp

lemma step_states_rows:
  "step_states h Mprev ot states MB = Inr MB' \<Longrightarrow>
   (\<forall>s\<in>set states. \<exists>r. best_prev_loop h Mprev s ot (hmm_alphabet h) (LOG_ZERO, None) = Inr r \<and>
        fst MB' s = Some (fst r) \<and> snd MB' s = Some (snd r)) \<and>
   (\<forall>s. s \<notin> set states \<longrightarrow> fst MB' s = fst MB s \<and> snd MB' s = snd MB s)"
proof (induction states arbitrary: MB)
  case Nil
  then show ?case by simp
next
  case (Cons state states)
  from Cons.prems obtain r where
    r: "best_prev_loop h Mprev state ot (hmm_alphabet h) (LOG_ZERO, None) = Inr r" and
    rest: "step_states h Mprev ot states ((fst MB)(state \<mapsto> fst r), (snd MB)(state \<mapsto> snd r)) = Inr MB'"
    by (auto simp: bind_res_eq_Inr)
  let ?MB = "((fst MB)(state \<mapsto> fst r), (snd MB)(state \<mapsto> snd r))"
  from Cons.IH [OF rest] have
    a: "\<forall>s\<in>set states. \<exists>r. best_prev_loop h Mprev s ot (hmm_alphabet h) (LOG_ZERO, None) = Inr r \<and>
        fst MB' s = Some (fst r) \<and> snd MB' s = Some (snd r)" and
    u: "\<forall>s. s \<notin> set states \<longrightarrow> fst MB' s = fst ?MB s \<and> snd MB' s = snd ?MB s"
    by blast+
  have here: "\<exists>r. best_prev_loop h Mprev state ot (hmm_alphabet h) (LOG_ZERO, None) = Inr r \<and>
        fst MB' state = Some (fst r) \<and> snd MB' state = Some (snd r)"
  proof (cases "state \<in> set states")
    case True
    with a show ?thesis by blast
  next
    case False
    with u r show ?thesis by simp
  qed
  have "\<forall>s. s \<notin> set (state # states) \<longrightarrow> fst MB' s = fst MB s \<and> snd MB' s = snd MB s"
    using u by simp
  with here a show ?case by simp
qed

lemma recursion_rows:
  "recursion h obs tables = Inr tables' \<Longrightarrow> fst tables \<noteq> [] \<Longrightarrow>
   length (fst tables) = length (snd tables) \<Longrightarrow>
   (\<forall>i<length (fst tables). fst tables' ! i = fst tables ! i \<and> snd tables' ! i = snd tables ! i) \<and>
   (\<forall>i<length obs. \<forall>s\<in>set (hmm_alphabet h).
      \<exists>r. best_prev_loop h (fst tables' ! (length (fst tables) + i - 1)) s (obs ! i)
             (hmm_alphabet h) (LOG_ZERO, None) = Inr r \<and>
           (fst tables' ! (length (fst tables) + i)) s = Some (fst r) \<and>
           (snd tables' ! (length (fst tables) + i)) s = Some (snd r))"
proof (induction obs arbitrary: tables)
  case Nil
  then show ?case by simp
next
  case (Cons ot obs)
  let ?k = "length (fst tables)"
  from Cons.prems(1) obtain MB where
    step: "step_states h (last (fst tables)) ot (hmm_alphabet h) (Map.empty, Map.empty) = Inr MB" and
    rest: "recursion h obs (fst tables @ [fst MB], snd tables @ [snd MB]) = Inr tables'"
    by (auto simp: bind_res_eq_Inr)
  let ?t = "(fst tables @ [fst MB], snd tables @ [snd MB])"
  have "fst ?t \<noteq> []" "length (fst ?t) = length (snd ?t)"
    using Cons.prems(3) by simp_all
  from Cons.IH [OF rest this] have
    old: "\<forall>i<Suc ?k. fst tables' ! i = fst ?t ! i \<and> snd tables' ! i = snd ?t ! i" and
    new: "\<forall>i<length obs. \<forall>s\<in>set (hmm_alphabet h).
      \<exists>r. best_prev_loop h (fst tables' ! (Suc ?k + i - 1)) s (obs ! i)
             (hmm_alphabet h) (LOG_ZERO, None) = Inr r \<and>
           (fst tables' ! (Suc ?k + i)) s = Some (fst r) \<and>
           (snd tables' ! (Suc ?k + i)) s = Some (snd r)"
    by simp_all
  have kpos: "0 < ?k"
    using Cons.prems(2) by simp
  have keep: "\<forall>i<?k. fst tables' ! i = fst tables ! i \<and> snd tables' ! i = snd tables ! i"
    using old Cons.prems(3) by (simp add: nth_append)
  have rowk: "fst tables' ! ?k = fst MB" "snd tables' ! ?k = snd MB"
    using old Cons.prems(3) by (simp_all add: nth_append)
  have prev: "fst tables' ! (?k - 1) = last (fst tables)"
    using keep kpos Cons.prems(2) by (simp add: last_conv_nth)
  have first: "\<forall>s\<in>set (hmm_alphabet h).
      \<exists>r. best_prev_loop h (fst tables' ! (?k - 1)) s ot (hmm_alphabet h) (LOG_ZERO, None) = Inr r \<and>
           (fst tables' ! ?k) s = Some (fst r) \<and> (snd tables' ! ?k) s = Some (snd r)"
    unfolding prev rowk using step_states_rows [OF step] by blast
  have "\<forall>i<length (ot # obs). \<forall>s\<in>set (hmm_alphabet h).
      \<exists>r. best_prev_loop h (fst tables' ! (?k + i - 1)) s ((ot # obs) ! i)
             (hmm_alphabet h) (LOG_ZERO, None) = Inr r \<and>
           (fst tables' ! (?k + i)) s = Some (fst r) \<and>
           (snd tables' ! (?k + i)) s = Some (snd r)"
  proof (intro allI impI)
    fix i assume i: "i < length (ot # obs)"
    show "\<forall>s\<in>set (hmm_alphabet h).
      \<exists>r. best_prev_loop h (fst tables' ! (?k + i - 1)) s ((ot # obs) ! i)
             (hmm_alphabet h) (LOG_ZERO, None) = Inr r \<and>
           (fst tables' ! (?k + i)) s = Some (fst r) \<and>
           (snd tables' ! (?k + i)) s = Some (snd r)"
    proof (cases i)
      case 0
      with first show ?thesis by simp
    next
      case (Suc j)
      with i have "j < length obs" by simp
      with new Suc show ?thesis by simp
    qed
  qed
  with keep show ?case by blast
qed

lemma forward_rows:
  assumes "forward h obs = Inr tables" and "0 < t" and "t < length obs" and "s \<in> set (hmm_alphabet h)"
  shows "\<exists>r. best_prev_loop h (fst tables ! (t - 1)) s (obs ! t) (hmm_alphabet h) (LOG_ZERO, None) = Inr r \<and>
             (fst tables ! t) s = Some (fst r) \<and> (snd tables ! t) s = Some (snd r)"
proof (cases obs)
  case Nil
  with assms(3) show ?thesis by simp
next
  case (Cons o0 rest)
  from assms(1) Cons obtain MB where
    r: "recursion h rest ([fst MB], [snd MB]) = Inr tables"
    by (auto simp: bind_res_eq_Inr)
  from assms(2) obtain i where t: "t = Suc i"
    by (cases t) auto
  with assms(3) Cons have i: "i < length rest"
    by simp
  have "fst ([fst MB], [snd MB]) \<noteq> []" "length (fst ([fst MB], [snd MB])) = length (snd ([fst MB], [snd MB]))"
    by simp_all
  from recursion_rows [OF r this] i assms(4) show ?thesis
    by (simp add: t Cons)
qed

lemma forward_row_above_sentinel:
  assumes "forward h obs = Inr tables" and "0 < t" and "t < length obs" and "s \<in> set (hmm_alphabet h)"
    and "\<forall>p\<in>set (hmm_alphabet h). candidate h (fst tables ! (t - 1)) s (obs ! t) p = Inr (c p)"
    and "\<exists>p\<in>set (hmm_alphabet h). c p > LOG_ZERO"
  shows "(fst tables ! t) s = Some (Max (c ` set (hmm_alphabet h))) \<and>
         (snd tables ! t) s = Some (first_max c (hmm_alphabet h))"
  using forward_rows [OF assms(1-4)] best_prev_above_sentinel [OF assms(5,6)]
  by auto

lemma forward_row_at_sentinel:
  assumes "forward h obs = Inr tables" and "0 < t" and "t < length obs" and "s \<in> set (hmm_alphabet h)"
    and "\<forall>p\<in>set (hmm_alphabet h). candidate h (fst tables ! (t - 1)) s (obs ! t) p = Inr (c p)"
    and "\<forall>p\<in>set (hmm_alphabet h). c p \<le> LOG_ZERO"
  shows "(fst tables ! t) s = Some LOG_ZERO \<and> (snd tables ! t) s = Some None"
  using forward_rows [OF assms(1-4)] best_prev_at_sentinel [OF assms(5,6)]
  by auto

text \<open>
  The final symbol: \<^verbatim>\<open>max\<close> returns the first key, in alphabet order, whose score
  is the maximum of the last row.
\<close>

lemma max_loop_first:
  "max_loop d ks (b, v b) = Inr k \<Longrightarrow> \<forall>q\<in>set ks. d q = Some (v q) \<Longrightarrow>
   v b \<le> v k \<and> (\<forall>q\<in>set ks. v q \<le> v k) \<and>
   ((\<forall>q\<in>set ks. v q \<le> v b) \<longrightarrow> k = b) \<and>
   ((\<exists>q\<in>set ks. v q > v b) \<longrightarrow> find (\<lambda>q. v q = v k) ks = Some k)"
proof (induction ks arbitrary: b)
  case Nil
  then show ?case by simp
next
  case (Cons p ps)
  have dp: "d p = Some (v p)" and rest: "\<forall>q\<in>set ps. d q = Some (v q)"
    using Cons.prems(2) by simp_all
  show ?case
  proof (cases "v p > v b")
    case True
    then have "max_loop d ps (p, v p) = Inr k"
      using Cons.prems(1) dp by (simp add: lookup_def)
    from Cons.IH [OF this rest] have
      ih1: "v p \<le> v k" and ih2: "\<forall>q\<in>set ps. v q \<le> v k" and
      ih3: "(\<forall>q\<in>set ps. v q \<le> v p) \<longrightarrow> k = p" and
      ih4: "(\<exists>q\<in>set ps. v q > v p) \<longrightarrow> find (\<lambda>q. v q = v k) ps = Some k"
      by blast+
    have "find (\<lambda>q. v q = v k) (p # ps) = Some k"
    proof (cases "\<forall>q\<in>set ps. v q \<le> v p")
      case True
      with ih3 show ?thesis by simp
    next
      case False
      then obtain q where q: "q \<in> set ps" "v q > v p" by force
      with ih2 have "v p \<noteq> v k" by force
      with ih4 q show ?thesis by auto
    qed
    with True ih1 ih2 show ?thesis by auto
  next
    case False
    then have "max_loop d ps (b, v b) = Inr k"
      using Cons.prems(1) dp by (simp add: lookup_def)
    from Cons.IH [OF this rest] have
      ih1: "v b \<le> v k" and ih2: "\<forall>q\<in>set ps. v q \<le> v k" and
      ih3: "(\<forall>q\<in>set ps. v q \<le> v b) \<longrightarrow> k = b" and
      ih4: "(\<exists>q\<in>set ps. v q > v b) \<longrightarrow> find (\<lambda>q. v q = v k) ps = Some k"
      by blast+
    have "find (\<lambda>q. v q = v k) (p # ps) = Some k" if "\<exists>q\<in>set (p # ps). v q > v b"
    proof -
      from that False obtain q where q: "q \<in> set ps" "v q > v b" by auto
      with ih2 False have "v p \<noteq> v k" by force
      with ih4 q show ?thesis by auto
    qed
    with False ih1 ih2 ih3 show ?thesis by auto
  qed
qed

lemma max_key_first_max:
  assumes "max_key d ks = Inr k" and "\<forall>q\<in>set ks. d q = Some (v q)"
  shows "first_max v ks = Some k"
proof (cases ks)
  case Nil
  with assms(1) show ?thesis by simp
next
  case (Cons b rest)
  have db: "d b = Some (v b)" and dr: "\<forall>q\<in>set rest. d q = Some (v q)"
    using assms(2) Cons by simp_all
  have run: "max_loop d rest (b, v b) = Inr k"
    using assms(1) Cons db by (simp add: lookup_def)
  from max_loop_first [OF run dr] have
    m1: "v b \<le> v k" and m2: "\<forall>q\<in>set rest. v q \<le> v k" and
    m3: "(\<forall>q\<in>set rest. v q \<le> v b) \<longrightarrow> k = b" and
    m4: "(\<exists>q\<in>set rest. v q > v b) \<longrightarrow> find (\<lambda>q. v q = v k) rest = Some k"
    by blast+
  have le: "\<forall>q\<in>set ks. v q \<le> v k"
    using m1 m2 Cons by simp
  have mem: "v k \<in> v ` set ks"
    using max_key_in_keys [OF assms(1)] by simp
  have "find (\<lambda>q. v q = v k) ks = Some k"
  proof (cases "\<forall>q\<in>set rest. v q \<le> v b")
    case True
    with m3 Cons show ?thesis by simp
  next
    case False
    then obtain q where q: "q \<in> set rest" "v q > v b" by force
    with m2 have "v b \<noteq> v k" by force
    with m4 q Cons show ?thesis by auto
  qed
  with find_first_max [OF mem le] show ?thesis by simp
qed

lemma backtrack_prefix:
  "backtrack Bs n best path = Inr p \<Longrightarrow> take (Suc (length path)) p = path @ [best]"
proof (induction n arbitrary: best path)
  case 0
  then show ?case by auto
next
  case (Suc n)
  from Suc.prems obtain prev where "backtrack Bs n prev (path @ [best]) = Inr p"
    by (auto simp: bind_res_eq_Inr split: if_splits option.splits)
  from Suc.IH [OF this] have "take (Suc (Suc (length path))) p = path @ [best, prev]"
    by simp
  then have "take (Suc (length path)) (take (Suc (Suc (length path))) p) = take (Suc (length path)) (path @ [best, prev])"
    by simp
  then show ?case
    by (simp add: min_def)
qed

lemma viterbi_final_symbol:
  assumes "viterbi_path h obs = Inr s" and "forward h obs = Inr tables" and "obs \<noteq> []"
    and "\<forall>q\<in>set (hmm_alphabet h). last (fst tables) q = Some (v q)"
  shows "first_max v (hmm_alphabet h) = Some (last s)"
proof -
  from assms(1,2) obtain best path where
    m: "max_key (last (fst tables)) (hmm_alphabet h) = Inr best" and
    b: "backtrack (snd tables) (length obs - 1) (Some best) [] = Inr path" and
    j: "join_path (rev path) = Inr s"
    by (auto simp: viterbi_path_def bind_res_eq_Inr)
  from backtrack_prefix [OF b] have "take 1 path = [Some best]"
    by simp
  then obtain rest where path: "path = Some best # rest"
    by (cases path) auto
  have "rev path = map Some s"
    using join_path_map [OF j] .
  then have "map Some s = rev rest @ [Some best]"
    using path by simp
  then have "last (map Some s) = Some best"
    by simp
  moreover have "s \<noteq> []"
    using \<open>map Some s = rev rest @ [Some best]\<close> by auto
  ultimately have "last s = best"
    by (simp add: last_map)
  with max_key_first_max [OF m assms(4)] show ?thesis
    by simp
qed

lemmas run_defs = viterbi_def viterbi_path_def observed_def lower_def lower_char_def
  upper_letters_def lower_letters_def dict_of_def lookup_def lookup2_def candidate_def
  safe_log_value log_value_def LOG_ZERO_def

text \<open>
  C3. In the model \<open>det_hmm\<close> no word starts with \<open>b\<close>. Decoding \<open>bb\<close>, at
  time 1 and state \<open>a\<close> both candidates are \<open>-2e9\<close>, below the initial
  \<^verbatim>\<open>max_val = LOG_ZERO\<close>: the stored score is \<open>-1e9\<close>, which is not their
  maximum, the stored backpointer is \<^verbatim>\<open>None\<close> and not the first maximising
  symbol \<open>a\<close>, and \<^verbatim>\<open>''.join(path)\<close> raises a TypeError.
\<close>

theorem sentinel_floor_hides_candidates:
  "\<exists>Ms Bs. forward det_hmm ''bb'' = Inr (Ms, Bs)
     \<and> candidate det_hmm (Ms ! 0) CHR ''a'' CHR ''b'' CHR ''a'' = Inr (- 2000000000)
     \<and> candidate det_hmm (Ms ! 0) CHR ''a'' CHR ''b'' CHR ''b'' = Inr (- 2000000000)
     \<and> (Ms ! 1) CHR ''a'' = Some (- 1000000000)
     \<and> (Bs ! 1) CHR ''a'' = Some None
     \<and> viterbi ''bb'' det_hmm = Inl TypeError"
  by (simp add: run_defs det_hmm_def)


lemma corpus_counts_le: "counts_le (count_lines corpus) 5"
  by (simp add: counts_le_def corpus_def counting_defs alphabet_def)

lemma corpus_observed: "observed ''Teh!'' (build_hmm_from_lines corpus) = ''teh''"
  by (simp add: observed_def hmm_alphabet_built lower_def lower_char_def upper_letters_def
      lower_letters_def alphabet_def)

lemma ln_527: "ln (527::real) \<le> 526"
  using ln_le_minus_one [of "527::real"] by simp

text \<open>
  C6, as stated, fails when the word has an uppercase letter: the alphabet symbols of
  \<open>Teh!\<close> are \<open>eh\<close>, two symbols, but \<^verbatim>\<open>viterbi\<close> lowercases the word
  first and returns three symbols.
\<close>

theorem unlowered_length_counterexample:
  "letters_of ''Teh!'' \<noteq> [] \<and>
   (\<exists>s. viterbi ''Teh!'' (build_hmm_from_lines corpus) = Inr s \<and>
        length s \<noteq> length (letters_of ''Teh!''))"
proof -
  let ?h = "build_hmm_from_lines corpus"
  have l: "letters_of ''Teh!'' = ''eh''"
    by (simp add: letters_of_def alphabet_def)
  have ne: "observed ''Teh!'' ?h \<noteq> []"
    by (simp add: corpus_observed)
  have "2 * ln (100 * real 5 + 27) * real (length (observed ''Teh!'' ?h)) < 1000000000"
    using ln_527 by (simp add: corpus_observed)
  from viterbi_returns_trained [OF corpus_counts_le ne this] obtain s where
    s: "viterbi ''Teh!'' ?h = Inr s"
    by blast
  then have "viterbi_path ?h ''teh'' = Inr s"
    by (simp add: viterbi_def corpus_observed)
  from viterbi_path_result [OF this] have "length s = 3"
    by simp
  with s l show ?thesis
    by auto
qed

text \<open>
  C6, amended. For every word whose lowercased form has a non-empty filtered form
  \<^verbatim>\<open>O\<close> (the alphabet symbols of the lowercased word), a string that
  \<^verbatim>\<open>viterbi\<close> returns has the length of \<^verbatim>\<open>O\<close>; and for a trained model whose
  counters hold at most \<open>N\<close> counts each, \<^verbatim>\<open>viterbi\<close> does return such a string
  for every word with \<open>2 * ln (100 * N + 27) * length O < 1e9\<close>.
\<close>

theorem viterbi_length_preserved:
  assumes "observed w h \<noteq> []"
  shows "(\<forall>s. viterbi w h = Inr s \<longrightarrow> length s = length (observed w h)) \<and>
         (\<forall>ls N. h = build_hmm_from_lines ls \<and> counts_le (count_lines ls) N \<and>
                 2 * ln (100 * real N + 27) * real (length (observed w h)) < 1000000000
                 \<longrightarrow> (\<exists>s. viterbi w h = Inr s \<and> length s = length (observed w h)))"
proof -
  have len: "length s = length (observed w h)" if "viterbi w h = Inr s" for s
    using that assms viterbi_path_result [of h "observed w h" s] by (simp add: viterbi_def)
  moreover have "\<exists>s. viterbi w h = Inr s \<and> length s = length (observed w h)"
    if "h = build_hmm_from_lines ls" "counts_le (count_lines ls) N"
      "2 * ln (100 * real N + 27) * real (length (observed w h)) < 1000000000" for ls N
    using viterbi_returns_trained [of ls N w] that assms len by auto
  ultimately show ?thesis by blast
qed

theorem viterbi_length_preserved_witness:
  "\<exists>s. viterbi ''Teh!'' (build_hmm_from_lines corpus) = Inr s \<and> length s = 3"
proof -
  have ne: "observed ''Teh!'' (build_hmm_from_lines corpus) \<noteq> []"
    by (simp add: corpus_observed)
  have short: "2 * ln (100 * real 5 + 27) *
      real (length (observed ''Teh!'' (build_hmm_from_lines corpus))) < 1000000000"
    using ln_527 by (simp add: corpus_observed)
  from viterbi_length_preserved [OF ne]
  have "build_hmm_from_lines corpus = build_hmm_from_lines corpus \<and> counts_le (count_lines corpus) 5 \<and>
      2 * ln (100 * real 5 + 27) * real (length (observed ''Teh!'' (build_hmm_from_lines corpus))) < 1000000000
      \<longrightarrow> (\<exists>s. viterbi ''Teh!'' (build_hmm_from_lines corpus) = Inr s \<and>
             length s = length (observed ''Teh!'' (build_hmm_from_lines corpus)))"
    by blast
  with corpus_counts_le short show ?thesis
    by (simp add: corpus_observed numeral_3_eq_3)
qed


lemma lower_char_upper: "c \<in> set upper_letters \<Longrightarrow> lower_char c \<in> set alphabet"
  by (auto simp: upper_letters_def lower_letters_def lower_char_def alphabet_def)

lemma alphabet_not_upper: "set alphabet \<inter> set upper_letters = {}"
  by (simp add: upper_letters_def alphabet_def)

lemma observed_upper:
  assumes "hmm_alphabet h = alphabet" and "set w \<subseteq> set upper_letters"
  shows "observed w h = lower w"
proof -
  have "\<forall>c\<in>set (lower w). c \<in> set alphabet"
    using assms(2) lower_char_upper by (auto simp: lower_def)
  then show ?thesis
    by (simp add: observed_def assms(1))
qed

text \<open>
  C10. For a model over the 27 symbol alphabet, \<^verbatim>\<open>O\<close> is the filtered form of the
  lowercased input; when it is not empty, a returned string holds alphabet symbols only
  (lowercase letters and the apostrophe), so no uppercase letter; a non-empty input of
  uppercase letters has \<^verbatim>\<open>O\<close> equal to its lowercase form and is decoded by the
  Viterbi path, not returned by the fallback; and a trained model returns such a string
  for every word within the length bound of \<open>viterbi_returns_trained\<close>.
\<close>

theorem viterbi_output_lowercase:
  assumes "hmm_alphabet h = alphabet"
  shows "observed w h = letters_of (lower w)
       \<and> (observed w h \<noteq> [] \<longrightarrow>
            (\<forall>s. viterbi w h = Inr s \<longrightarrow> set s \<subseteq> set alphabet \<and> set s \<inter> set upper_letters = {}))
       \<and> (w \<noteq> [] \<and> set w \<subseteq> set upper_letters \<longrightarrow>
            observed w h = lower w \<and> viterbi w h = viterbi_path h (lower w))
       \<and> (\<forall>ls N. observed w h \<noteq> [] \<and> h = build_hmm_from_lines ls \<and> counts_le (count_lines ls) N \<and>
                 2 * ln (100 * real N + 27) * real (length (observed w h)) < 1000000000
                 \<longrightarrow> (\<exists>s. viterbi w h = Inr s \<and> set s \<subseteq> set alphabet))"
proof -
  have a: "observed w h = letters_of (lower w)"
    by (simp add: observed_def letters_of_def assms)
  have b: "set s \<subseteq> set alphabet \<and> set s \<inter> set upper_letters = {}"
    if "observed w h \<noteq> []" "viterbi w h = Inr s" for s
  proof -
    have "set s \<subseteq> set alphabet"
      using that viterbi_path_result [of h "observed w h" s] by (simp add: viterbi_def assms)
    then show ?thesis
      using alphabet_not_upper by auto
  qed
  have c: "observed w h = lower w \<and> viterbi w h = viterbi_path h (lower w)"
    if "w \<noteq> []" "set w \<subseteq> set upper_letters"
    using that observed_upper [OF assms that(2)] by (simp add: viterbi_def lower_def)
  have d: "\<exists>s. viterbi w h = Inr s \<and> set s \<subseteq> set alphabet"
    if "observed w h \<noteq> []" "h = build_hmm_from_lines ls" "counts_le (count_lines ls) N"
      "2 * ln (100 * real N + 27) * real (length (observed w h)) < 1000000000" for ls N
    using viterbi_returns_trained [of ls N w] that b by auto
  from a b c d show ?thesis by blast
qed

theorem viterbi_output_lowercase_witness:
  "observed ''TEH'' (build_hmm_from_lines corpus) = ''teh'' \<and>
   viterbi ''TEH'' (build_hmm_from_lines corpus) = viterbi_path (build_hmm_from_lines corpus) ''teh'' \<and>
   (\<exists>s. viterbi ''TEH'' (build_hmm_from_lines corpus) = Inr s \<and> set s \<subseteq> set alphabet)"
proof -
  let ?h = "build_hmm_from_lines corpus"
  have up: "''TEH'' \<noteq> [] \<and> set ''TEH'' \<subseteq> set upper_letters"
    by (simp add: upper_letters_def)
  have low: "lower ''TEH'' = ''teh''"
    by (simp add: lower_def lower_char_def upper_letters_def lower_letters_def)
  note inst = viterbi_output_lowercase [where h = ?h and w = "''TEH''", OF hmm_alphabet_built]
  from inst up have obs: "observed ''TEH'' ?h = lower ''TEH''"
    and path: "viterbi ''TEH'' ?h = viterbi_path ?h (lower ''TEH'')"
    by blast+
  have short: "2 * ln (100 * real 5 + 27) * real (length (observed ''TEH'' ?h)) < 1000000000"
    using ln_527 by (simp add: obs low)
  from inst have "observed ''TEH'' ?h \<noteq> [] \<and> ?h = build_hmm_from_lines corpus \<and>
      counts_le (count_lines corpus) 5 \<and>
      2 * ln (100 * real 5 + 27) * real (length (observed ''TEH'' ?h)) < 1000000000
      \<longrightarrow> (\<exists>s. viterbi ''TEH'' ?h = Inr s \<and> set s \<subseteq> set alphabet)"
    by blast
  with corpus_counts_le short have "\<exists>s. viterbi ''TEH'' ?h = Inr s \<and> set s \<subseteq> set alphabet"
    by (simp add: obs low)
  with obs path low show ?thesis
    by simp
qed

lemma lower_char_other: "c \<notin> set upper_letters \<Longrightarrow> lower_char c = c"
proof -
  assume "c \<notin> set upper_letters"
  then have "map_of (zip upper_letters lower_letters) c = None"
    by (simp add: map_of_eq_None_iff upper_letters_def lower_letters_def)
  then show ?thesis
    by (simp add: lower_char_def)
qed

lemma lower_char_in_alphabet:
  "lower_char c \<in> set alphabet \<longleftrightarrow> c \<in> set alphabet \<union> set upper_letters"
proof (cases "c \<in> set upper_letters")
  case True
  then show ?thesis using lower_char_upper by simp
next
  case False
  then show ?thesis by (simp add: lower_char_other)
qed

lemma observed_empty_iff:
  assumes "hmm_alphabet h = alphabet"
  shows "observed w h = [] \<longleftrightarrow> set w \<inter> (set alphabet \<union> set upper_letters) = {}"
proof -
  have "observed w h = [] \<longleftrightarrow> (\<forall>c\<in>set w. lower_char c \<notin> set alphabet)"
    by (simp add: observed_def assms lower_def filter_empty_conv)
  also have "\<dots> \<longleftrightarrow> set w \<inter> (set alphabet \<union> set upper_letters) = {}"
    using lower_char_in_alphabet by blast
  finally show ?thesis .
qed

text \<open>
  C7, as stated, fails on uppercase words: \<open>ABC\<close> contains no alphabet symbol, but
  \<^verbatim>\<open>viterbi\<close> lowercases it, decodes \<open>abc\<close> and cannot return \<open>ABC\<close>.
\<close>

theorem uppercase_fallback_counterexample:
  "letters_of ''ABC'' = [] \<and> viterbi ''ABC'' (build_hmm_from_lines corpus) \<noteq> Inr ''ABC''"
proof -
  let ?h = "build_hmm_from_lines corpus"
  have l: "letters_of ''ABC'' = []"
    by (simp add: letters_of_def alphabet_def)
  have up: "set ''ABC'' \<subseteq> set upper_letters"
    by (simp add: upper_letters_def)
  have low: "lower ''ABC'' = ''abc''"
    by (simp add: lower_def lower_char_def upper_letters_def lower_letters_def)
  have obs: "observed ''ABC'' ?h = ''abc''"
    using observed_upper [OF hmm_alphabet_built up, of corpus] low by simp
  have "viterbi ''ABC'' ?h \<noteq> Inr ''ABC''"
  proof
    assume "viterbi ''ABC'' ?h = Inr ''ABC''"
    then have "viterbi_path ?h ''abc'' = Inr ''ABC''"
      by (simp add: viterbi_def obs)
    from viterbi_path_result [OF this] have "set ''ABC'' \<subseteq> set alphabet"
      by (simp add: hmm_alphabet_built)
    then show False
      by (simp add: alphabet_def)
  qed
  with l show ?thesis by simp
qed

text \<open>
  C7, amended. When the lowercased input contains no alphabet symbol, \<^verbatim>\<open>viterbi\<close>
  returns the input itself, unchanged, as a normal result. For a model over the 27
  symbol alphabet these inputs are exactly the words without a letter of either case
  and without an apostrophe.
\<close>

theorem lowered_empty_fallback:
  "(observed w h = [] \<longrightarrow> viterbi w h = Inr w) \<and>
   (hmm_alphabet h = alphabet \<longrightarrow>
      observed w h = letters_of (lower w) \<and>
      (observed w h = [] \<longleftrightarrow> set w \<inter> (set alphabet \<union> set upper_letters) = {}))"
  using observed_empty_iff [of h w]
  by (simp add: viterbi_def observed_def letters_of_def)

theorem lowered_empty_fallback_witness:
  "viterbi ''12 3!'' (build_hmm_from_lines corpus) = Inr ''12 3!'' \<and>
   observed ''ABC'' (build_hmm_from_lines corpus) \<noteq> []"
proof -
  let ?h = "build_hmm_from_lines corpus"
  have a: "set ''12 3!'' \<inter> (set alphabet \<union> set upper_letters) = {}"
    by (simp add: alphabet_def upper_letters_def)
  have b: "set ''ABC'' \<inter> (set alphabet \<union> set upper_letters) \<noteq> {}"
    by (simp add: alphabet_def upper_letters_def)
  have std: "hmm_alphabet ?h = alphabet"
    by (rule hmm_alphabet_built)
  from lowered_empty_fallback [of "''12 3!''" ?h] a std
  have "viterbi ''12 3!'' ?h = Inr ''12 3!''"
    by blast
  moreover from lowered_empty_fallback [of "''ABC''" ?h] b std
  have "observed ''ABC'' ?h \<noteq> []"
    by blast
  ultimately show ?thesis by simp
qed

subsection \<open>Correcting a sentence\<close>

lemma correct_words_iff:
  "correct_words ws h acc = Inr r \<longleftrightarrow>
   (\<exists>ds. list_all2 (\<lambda>w d. viterbi w h = Inr d) ws ds \<and> r = acc @ ds)"
proof (induction ws arbitrary: acc)
  case Nil
  show ?case by auto
next
  case (Cons w ws)
  have "correct_words (w # ws) h acc = Inr r \<longleftrightarrow>
        (\<exists>d. viterbi w h = Inr d \<and> correct_words ws h (acc @ [d]) = Inr r)"
    by (simp add: bind_res_eq_Inr)
  also have "\<dots> \<longleftrightarrow> (\<exists>d ds. viterbi w h = Inr d \<and> list_all2 (\<lambda>w d. viterbi w h = Inr d) ws ds \<and>
        r = acc @ d # ds)"
    by (simp add: Cons.IH)
  also have "\<dots> \<longleftrightarrow> (\<exists>ds. list_all2 (\<lambda>w d. viterbi w h = Inr d) (w # ws) ds \<and> r = acc @ ds)"
    by (auto simp: list_all2_Cons1)
  finally show ?case .
qed

lemma split_scan_tokens:
  "cur = [] \<or> (\<forall>c\<in>set cur. \<not> is_space c) \<Longrightarrow>
   (\<forall>t\<in>set (split_scan cur s). t \<noteq> [] \<and> (\<forall>c\<in>set t. \<not> is_space c)) \<and>
   concat (split_scan cur s) = cur @ filter (\<lambda>c. \<not> is_space c) s"
proof (induction s arbitrary: cur)
  case Nil
  then show ?case by auto
next
  case (Cons c cs)
  show ?case
  proof (cases "is_space c")
    case True
    from Cons.IH [of "[]"] True Cons.prems show ?thesis by auto
  next
    case False
    with Cons.prems have "cur @ [c] = [] \<or> (\<forall>x\<in>set (cur @ [c]). \<not> is_space x)"
      by auto
    from Cons.IH [OF this] False show ?thesis by simp
  qed
qed

lemma split_ws_tokens:
  "(\<forall>t\<in>set (split_ws s). t \<noteq> [] \<and> (\<forall>c\<in>set t. \<not> is_space c)) \<and>
   concat (split_ws s) = filter (\<lambda>c. \<not> is_space c) s"
  using split_scan_tokens [of "[]" s] by (simp add: split_ws_def)

text \<open>
  C8. \<^verbatim>\<open>correct_sentence\<close> returns a string exactly when \<^verbatim>\<open>viterbi\<close> returns one
  for every whitespace-delimited token of the text, and the result is then the decoded
  tokens, in order, joined by single spaces; each token is decoded on its own.
\<close>

theorem correct_sentence_joins_decoded_tokens:
  "correct_sentence text h = Inr r \<longleftrightarrow>
   (\<exists>ds. list_all2 (\<lambda>w d. viterbi w h = Inr d) (split_ws text) ds \<and> r = join_space ds)"
  by (auto simp: correct_sentence_def bind_res_eq_Inr correct_words_iff)

theorem correct_sentence_joins_decoded_tokens_witness:
  "split_ws '' aa  A!'' = [''aa'', ''A!''] \<and> viterbi ''aa'' det_hmm = Inr ''aa'' \<and>
   viterbi ''A!'' det_hmm = Inr ''a'' \<and> correct_sentence '' aa  A!'' det_hmm = Inr ''aa a''"
proof -
  have sp: "split_ws '' aa  A!'' = [''aa'', ''A!'']"
    by (simp add: split_ws_def is_space_def)
  have v1: "viterbi ''aa'' det_hmm = Inr ''aa''" and v2: "viterbi ''A!'' det_hmm = Inr ''a''"
    by (simp_all add: run_defs det_hmm_def)
  have "list_all2 (\<lambda>w d. viterbi w det_hmm = Inr d) (split_ws '' aa  A!'') [''aa'', ''a'']"
    by (simp add: sp v1 v2)
  then have "correct_sentence '' aa  A!'' det_hmm = Inr (join_space [''aa'', ''a''])"
    using correct_sentence_joins_decoded_tokens [of "'' aa  A!''" det_hmm "join_space [''aa'', ''a'']"]
    by blast
  with sp v1 v2 show ?thesis by simp
qed

end
